theory Spec2Isabelle
  imports Complex_Main "HOL-Library.Log_Nat"
begin

section \<open>The date arithmetic of \<open>uob_utils.py\<close>\<close>

text \<open>
  The module maps calendar dates to the University of Birmingham's week numbering
  (\<open>WeekOne\<close>, \<open>UniversityWeek\<close>, \<open>DateFromUniversityWeek\<close>, \<open>AcademicYear\<close>,
  \<open>TermWeek\<close>) and counts working days after a submission deadline
  (\<open>days_since_deadline\<close>). Its functions are written on top of Python's
  \<open>datetime\<close> and \<open>calendar\<close> modules, so the part of these two modules that the code
  calls is modelled first, following the algorithms of CPython's \<open>_pydatetime.py\<close> and
  \<open>calendar.py\<close>: a date is the triple of its fields, the proleptic Gregorian ordinal is
  computed from the fields, and every exception the calls can raise is a value.
\<close>

subsection \<open>Exceptions\<close>

datatype error =
    ValueError      \<comment> \<open>a date outside the years 1..9999, or with a bad month or day\<close>
  | OverflowError   \<comment> \<open>date arithmetic leaving the years 1..9999\<close>
  | IndexError      \<comment> \<open>indexing an empty list\<close>
  | SystemExit      \<comment> \<open>\<open>sys.exit\<close> of the working-day scan\<close>

definition bind_err :: "error + 'a \<Rightarrow> ('a \<Rightarrow> error + 'b) \<Rightarrow> error + 'b" where
  "bind_err r f = (case r of Inl e \<Rightarrow> Inl e | Inr x \<Rightarrow> f x)"

subsection \<open>\<open>datetime.date\<close>\<close>

record date =
  year :: int
  month :: int
  day :: int

definition MINYEAR :: int where "MINYEAR = 1"
definition MAXYEAR :: int where "MAXYEAR = 9999"
definition MAXORDINAL :: int where "MAXORDINAL = 3652059"

definition is_leap :: "int \<Rightarrow> bool" where
  "is_leap y = (y mod 4 = 0 \<and> (y mod 100 \<noteq> 0 \<or> y mod 400 = 0))"

definition days_before_year :: "int \<Rightarrow> int" where
  "days_before_year y = (let z = y - 1 in z * 365 + z div 4 - z div 100 + z div 400)"

text \<open>The tables \<open>_DAYS_IN_MONTH\<close> and \<open>_DAYS_BEFORE_MONTH\<close>, for the months 1..12.\<close>

definition DAYS_IN_MONTH :: "int \<Rightarrow> int" where
  "DAYS_IN_MONTH m =
     (if m = 2 then 28 else if m = 4 \<or> m = 6 \<or> m = 9 \<or> m = 11 then 30 else 31)"

definition DAYS_BEFORE_MONTH :: "int \<Rightarrow> int" where
  "DAYS_BEFORE_MONTH m =
     (if m = 1 then 0 else if m = 2 then 31 else if m = 3 then 59 else if m = 4 then 90
      else if m = 5 then 120 else if m = 6 then 151 else if m = 7 then 181
      else if m = 8 then 212 else if m = 9 then 243 else if m = 10 then 273
      else if m = 11 then 304 else 334)"

definition days_in_month :: "int \<Rightarrow> int \<Rightarrow> int" where
  "days_in_month y m = (if m = 2 \<and> is_leap y then 29 else DAYS_IN_MONTH m)"

definition days_before_month :: "int \<Rightarrow> int \<Rightarrow> int" where
  "days_before_month y m = DAYS_BEFORE_MONTH m + (if m > 2 \<and> is_leap y then 1 else 0)"

definition ymd2ord :: "int \<Rightarrow> int \<Rightarrow> int \<Rightarrow> int" where
  "ymd2ord y m d = days_before_year y + days_before_month y m + d"

text \<open>
  \<open>_ord2ymd\<close>: the ordinal is split into 400-year, 100-year and 4-year cycles and single
  years; the month is estimated as \<open>(n + 50) >> 5\<close> and corrected downwards once.
\<close>

definition month_day :: "bool \<Rightarrow> int \<Rightarrow> int \<times> int" where
  "month_day leapyear n =
     (let m = (n + 50) div 32;
          preceding = DAYS_BEFORE_MONTH m + (if m > 2 \<and> leapyear then 1 else 0)
      in if preceding > n
         then let m' = m - 1;
                  preceding' = preceding
                    - (DAYS_IN_MONTH m' + (if m' = 2 \<and> leapyear then 1 else 0))
              in (m', n - preceding' + 1)
         else (m, n - preceding + 1))"

definition ord2ymd :: "int \<Rightarrow> date" where
  "ord2ymd n0 =
     (let n = n0 - 1;
          n400 = n div 146097; n = n mod 146097;
          n100 = n div 36524; n = n mod 36524;
          n4 = n div 1461; n = n mod 1461;
          n1 = n div 365; n = n mod 365;
          y = n400 * 400 + 1 + n100 * 100 + n4 * 4 + n1
      in if n1 = 4 \<or> n100 = 4 then \<lparr>year = y - 1, month = 12, day = 31\<rparr>
         else
           let leapyear = (n1 = 3 \<and> (n4 \<noteq> 24 \<or> n100 = 3));
               (m, d) = month_day leapyear n
           in \<lparr>year = y, month = m, day = d\<rparr>)"

text \<open>The check of the constructor \<open>date(year, month, day)\<close>.\<close>

definition valid_ymd :: "int \<Rightarrow> int \<Rightarrow> int \<Rightarrow> bool" where
  "valid_ymd y m d =
     (MINYEAR \<le> y \<and> y \<le> MAXYEAR \<and> 1 \<le> m \<and> m \<le> 12 \<and> 1 \<le> d \<and> d \<le> days_in_month y m)"

definition valid_date :: "date \<Rightarrow> bool" where
  "valid_date d = valid_ymd (year d) (month d) (day d)"

definition date_new :: "int \<Rightarrow> int \<Rightarrow> int \<Rightarrow> error + date" where
  "date_new y m d =
     (if valid_ymd y m d then Inr \<lparr>year = y, month = m, day = d\<rparr> else Inl ValueError)"

definition toordinal :: "date \<Rightarrow> int" where
  "toordinal d = ymd2ord (year d) (month d) (day d)"

definition fromordinal :: "int \<Rightarrow> date" where
  "fromordinal n = ord2ymd n"

text \<open>\<open>date.weekday()\<close>: Monday is 0, Sunday is 6.\<close>

definition weekday :: "date \<Rightarrow> int" where
  "weekday d = (toordinal d + 6) mod 7"

text \<open>Dates compare as the tuples of their fields.\<close>

definition date_le :: "date \<Rightarrow> date \<Rightarrow> bool" where
  "date_le a b =
     (year a < year b \<or> (year a = year b \<and>
        (month a < month b \<or> (month a = month b \<and> day a \<le> day b))))"

definition date_lt :: "date \<Rightarrow> date \<Rightarrow> bool" where
  "date_lt a b = (date_le a b \<and> a \<noteq> b)"

text \<open>
  \<open>date + timedelta(days=k)\<close> and \<open>date - timedelta(days=k)\<close>: the result is built from
  the ordinal and must stay within the ordinals of the years 1..9999.
  \<open>(a - b).days\<close> is the difference of the ordinals.
\<close>

definition date_add_days :: "date \<Rightarrow> int \<Rightarrow> error + date" where
  "date_add_days d k =
     (let o' = toordinal d + k
      in if 0 < o' \<and> o' \<le> MAXORDINAL then Inr (fromordinal o') else Inl OverflowError)"

definition date_diff_days :: "date \<Rightarrow> date \<Rightarrow> int" where
  "date_diff_days a b = toordinal a - toordinal b"

text \<open>What it means for a triple of fields to be the date with ordinal \<open>n\<close>.\<close>

definition ord_ok :: "int \<Rightarrow> date \<Rightarrow> bool" where
  "ord_ok n d = (1 \<le> year d \<and> 1 \<le> month d \<and> month d \<le> 12 \<and> 1 \<le> day d
     \<and> day d \<le> days_in_month (year d) (month d) \<and> toordinal d = n)"

text \<open>A month and a day that exist in the year of the date (the year itself may be any).\<close>

definition md_ok :: "date \<Rightarrow> bool" where
  "md_ok d = (1 \<le> month d \<and> month d \<le> 12 \<and> 1 \<le> day d \<and> day d \<le> days_in_month (year d) (month d))"

subsection \<open>\<open>datetime.datetime\<close>\<close>

text \<open>
  A naive \<open>datetime\<close>: a date and the time of day, held as the microseconds since
  midnight (hour, minute, second and microsecond in one number, below \<open>86400000000\<close>).
\<close>

record datetime =
  dt_date :: date
  dt_time :: int

definition valid_datetime :: "datetime \<Rightarrow> bool" where
  "valid_datetime t = (valid_date (dt_date t) \<and> 0 \<le> dt_time t \<and> dt_time t < 86400000000)"

text \<open>\<open>datetime(year, month, day)\<close>: midnight of the day.\<close>

definition datetime_new :: "int \<Rightarrow> int \<Rightarrow> int \<Rightarrow> error + datetime" where
  "datetime_new y m d = bind_err (date_new y m d) (\<lambda>x. Inr \<lparr>dt_date = x, dt_time = 0\<rparr>)"

text \<open>
  \<open>a - b\<close> of two datetimes is a \<open>timedelta\<close>; it is held as its total number of
  microseconds. \<open>total_seconds()\<close> divides that number by \<open>10**6\<close>.
\<close>

definition dt_diff :: "datetime \<Rightarrow> datetime \<Rightarrow> int" where
  "dt_diff a b =
     (toordinal (dt_date a) - toordinal (dt_date b)) * 86400000000 + (dt_time a - dt_time b)"

text \<open>\<open>t + timedelta(days=k)\<close>: the time of day stays, the date moves by \<open>k\<close> days.\<close>

definition dt_add_days :: "datetime \<Rightarrow> int \<Rightarrow> error + datetime" where
  "dt_add_days t k =
     (let o' = toordinal (dt_date t) + k
      in if 0 < o' \<and> o' \<le> MAXORDINAL then Inr (t\<lparr>dt_date := fromordinal o'\<rparr>)
         else Inl OverflowError)"

subsection \<open>\<open>float\<close>\<close>

text \<open>
  Python's \<open>float\<close> is the IEEE double. Every operation the code uses (the true division
  of two integers in \<open>total_seconds\<close>, the division of a float by \<open>86400\<close>) returns the
  exact quotient rounded to the nearest number with a significand of 53 bits, ties to
  the even significand. \<open>fl\<close> is that rounding, on rationals: \<open>binexp x\<close> is the binary
  exponent of \<open>x\<close>, and \<open>x\<close> is rounded to a multiple of 2 to the \<open>binexp x - 52\<close>. The
  exponent range of the double is not modelled: the quotients of the code lie between
  \<open>10\<^sup>-\<^sup>1\<^sup>2\<close> and \<open>10\<^sup>1\<^sup>2\<close> in magnitude, or are zero.
\<close>

definition round_half_even :: "rat \<Rightarrow> int" where
  "round_half_even y =
     (let f = \<lfloor>y\<rfloor>; d = y - of_int f
      in if d < 1 / 2 then f else if 1 / 2 < d then f + 1 else if even f then f else f + 1)"

definition binexp :: "rat \<Rightarrow> int" where
  "binexp x =
     (let (a, b) = quotient_of \<bar>x\<bar>; d = bitlen a - bitlen b
      in if 2 powi d \<le> \<bar>x\<bar> then d else d - 1)"

definition fl :: "rat \<Rightarrow> rat" where
  "fl x = (if x = 0 then 0
           else let u = 2 powi (binexp x - 52) in of_int (round_half_even (x / u)) * u)"

text \<open>\<open>timedelta.total_seconds()\<close>, of a \<open>timedelta\<close> held as its microseconds.\<close>

definition total_seconds :: "int \<Rightarrow> rat" where
  "total_seconds us = fl (of_int us / 1000000)"

subsection \<open>\<open>calendar\<close>\<close>

text \<open>
  \<open>calendar.weekday\<close> maps a year outside 1..9999 into the 400-year cycle before it asks
  \<open>datetime.date\<close>; \<open>monthrange\<close> gives the weekday of the first of the month and the
  length of the month.
\<close>

definition cal_weekday :: "int \<Rightarrow> int \<Rightarrow> int \<Rightarrow> error + int" where
  "cal_weekday y m d =
     (let y' = (if MINYEAR \<le> y \<and> y \<le> MAXYEAR then y else 2000 + y mod 400)
      in bind_err (date_new y' m d) (\<lambda>x. Inr (weekday x)))"

definition monthlen :: "int \<Rightarrow> int \<Rightarrow> int" where
  "monthlen y m = DAYS_IN_MONTH m + (if m = 2 \<and> is_leap y then 1 else 0)"

definition monthrange :: "int \<Rightarrow> int \<Rightarrow> error + (int \<times> int)" where
  "monthrange y m =
     (if \<not> (1 \<le> m \<and> m \<le> 12) then Inl ValueError
      else bind_err (cal_weekday y m 1) (\<lambda>day1. Inr (day1, monthlen y m)))"

definition prevmonth :: "int \<Rightarrow> int \<Rightarrow> int \<times> int" where
  "prevmonth y m = (if m = 1 then (y - 1, 12) else (y, m - 1))"

definition nextmonth :: "int \<Rightarrow> int \<Rightarrow> int \<times> int" where
  "nextmonth y m = (if m = 12 then (y + 1, 1) else (y, m + 1))"

text \<open>
  \<open>Calendar(firstweekday).itermonthdays3(year, month)\<close>: the days of the month as
  (year, month, day), preceded and followed by the days of the neighbouring months that
  complete the first and the last week.
\<close>

definition itermonthdays3 :: "int \<Rightarrow> int \<Rightarrow> int \<Rightarrow> error + (int \<times> int \<times> int) list" where
  "itermonthdays3 firstweekday y m =
     bind_err (monthrange y m) (\<lambda>(day1, ndays).
       let days_before = (day1 - firstweekday) mod 7;
           days_after = (firstweekday - day1 - ndays) mod 7;
           (py, pm) = prevmonth y m;
           end = monthlen py pm + 1;
           (ny, nm) = nextmonth y m
       in Inr (map (\<lambda>d. (py, pm, d)) [end - days_before .. end - 1]
               @ map (\<lambda>d. (y, m, d)) [1 .. ndays]
               @ map (\<lambda>d. (ny, nm, d)) [1 .. days_after]))"

text \<open>\<open>itermonthdates\<close> builds a \<open>date\<close> from every triple; the first bad one raises.\<close>

fun dates_of :: "(int \<times> int \<times> int) list \<Rightarrow> error + date list" where
  "dates_of [] = Inr []"
| "dates_of ((y, m, d) # ts) =
     bind_err (date_new y m d) (\<lambda>x. bind_err (dates_of ts) (\<lambda>xs. Inr (x # xs)))"

text \<open>\<open>[dates[i:i+7] for i in range(0, len(dates), 7)]\<close>\<close>

fun weeks_of :: "'a list \<Rightarrow> 'a list list" where
  "weeks_of [] = []"
| "weeks_of (x # xs) = take 7 (x # xs) # weeks_of (drop 6 xs)"

definition monthdatescalendar :: "int \<Rightarrow> int \<Rightarrow> int \<Rightarrow> error + date list list" where
  "monthdatescalendar firstweekday y m =
     bind_err (itermonthdays3 firstweekday y m) (\<lambda>ts.
       bind_err (dates_of ts) (\<lambda>dates. Inr (weeks_of dates)))"

section \<open>The functions of \<open>uob_utils.py\<close>\<close>

subsection \<open>University weeks\<close>

text \<open>\<open>month[-1]\<close> and \<open>lastweek[0]\<close>: indexing raises on an empty list.\<close>

definition last_item :: "'a list \<Rightarrow> error + 'a" where
  "last_item xs = (if xs = [] then Inl IndexError else Inr (last xs))"

definition first_item :: "'a list \<Rightarrow> error + 'a" where
  "first_item xs = (case xs of [] \<Rightarrow> Inl IndexError | x # _ \<Rightarrow> Inr x)"

definition AugustBankHoliday :: "int \<Rightarrow> error + date" where
  "AugustBankHoliday y =
     bind_err (monthdatescalendar 0 y 8) (\<lambda>month.
       bind_err (last_item month) (\<lambda>lastweek. first_item lastweek))"

definition WeekOne :: "int \<Rightarrow> error + date" where
  "WeekOne y =
     bind_err (monthdatescalendar 4 y 8) (\<lambda>month.
       bind_err (last_item month) (\<lambda>lastweek.
         bind_err (first_item lastweek) (\<lambda>friday. date_add_days friday (- 4))))"

text \<open>
  \<open>int(math.floor(days / 7))\<close>: the quotient is a float, and its floor is the integer
  quotient for every number of days that two dates can be apart (at most 3652058; lemma
  \<open>floor_fl_div7\<close>).
\<close>

definition UniversityWeek :: "date \<Rightarrow> error + int" where
  "UniversityWeek d =
     bind_err (WeekOne (year d)) (\<lambda>w.
       if date_le w d then Inr (date_diff_days d w div 7 + 1)
       else bind_err (WeekOne (year d - 1)) (\<lambda>w'. Inr (date_diff_days d w' div 7 + 1)))"

definition DateFromUniversityWeek :: "int \<Rightarrow> int \<Rightarrow> int \<Rightarrow> error + date" where
  "DateFromUniversityWeek ayear uweek dow =
     bind_err (WeekOne ayear) (\<lambda>w.
       bind_err (date_add_days w (7 * (uweek - 1))) (\<lambda>d. date_add_days d dow))"

definition AcademicYear :: "date \<Rightarrow> error + int" where
  "AcademicYear d =
     bind_err (WeekOne (year d)) (\<lambda>w. Inr (if date_le w d then year d else year d - 1))"

definition TermWeek :: "date \<Rightarrow> error + int list" where
  "TermWeek d =
     bind_err (UniversityWeek d) (\<lambda>uweek.
       Inr (if uweek \<le> 16 \<and> uweek \<ge> 5 then [1, uweek - 5, uweek]
            else if uweek \<le> 31 \<and> uweek \<ge> 21 then [2, uweek - 20, uweek]
            else if uweek \<le> 43 \<and> uweek \<ge> 36 then [3, uweek - 35, uweek]
            else [0, 0, uweek]))"

definition FindCorrespondingDate :: "date \<Rightarrow> int \<Rightarrow> error + date" where
  "FindCorrespondingDate d ayear =
     bind_err (UniversityWeek d) (\<lambda>uweek. DateFromUniversityWeek ayear uweek (weekday d))"

subsection \<open>Working days since a deadline\<close>

text \<open>
  \<open>days_since_deadline(deadline)\<close> reads the clock (\<open>today = datetime.datetime.now()\<close>)
  and holds two literals, \<open>DAYS_TO_MARK\<close> and \<open>READABLE_CLOSED_DAYS\<close>. Its body is
  modelled as a function of all four, \<open>days_since_deadline_at\<close>; the function of the
  source is the body at the two literals.

  \<open>math.ceil((today - deadline).total_seconds() / 86400)\<close> is computed on floats:
  \<open>total_seconds\<close> rounds once, the division by \<open>86400\<close> rounds again, and \<open>math.ceil\<close>
  takes the ceiling of the result.
\<close>

definition ceil_days :: "int \<Rightarrow> int" where
  "ceil_days us = \<lceil>fl (total_seconds us / 86400)\<rceil>"

text \<open>
  The first loop, over \<open>range(1, days_elapsed + 1)\<close>: the range is fixed when the loop
  starts, the counter is decremented inside.
\<close>

fun remove_weekends :: "datetime \<Rightarrow> int list \<Rightarrow> int \<Rightarrow> error + int" where
  "remove_weekends deadline [] days_elapsed = Inr days_elapsed"
| "remove_weekends deadline (i # r) days_elapsed =
     (case dt_add_days deadline i of
        Inl e \<Rightarrow> Inl e
      | Inr date \<Rightarrow>
          remove_weekends deadline r
            (if weekday (dt_date date) > 4 then days_elapsed - 1 else days_elapsed))"

text \<open>The second loop, over \<open>closed_days\<close>.\<close>

fun remove_closed :: "datetime \<Rightarrow> datetime \<Rightarrow> datetime list \<Rightarrow> int \<Rightarrow> int" where
  "remove_closed today deadline [] days_elapsed = days_elapsed"
| "remove_closed today deadline (closed_day # r) days_elapsed =
     remove_closed today deadline r
       (if total_seconds (dt_diff today closed_day) > 0
           \<and> total_seconds (dt_diff deadline closed_day) < 0
        then days_elapsed - 1 else days_elapsed)"

text \<open>
  The \<open>while\<close> loop that looks for the marking deadline; its state is
  \<open>working_days_from_deadline\<close> and \<open>days_from_deadline\<close>, its result the final
  \<open>days_from_deadline\<close>.
\<close>

function scan_working_days :: "int \<Rightarrow> date list \<Rightarrow> datetime \<Rightarrow> int \<Rightarrow> int \<Rightarrow> error + int" where
  "scan_working_days days_to_mark closed_dates deadline working_days_from_deadline
       days_from_deadline =
     (if working_days_from_deadline < days_to_mark then
        (case dt_add_days deadline days_from_deadline of
           Inl e \<Rightarrow> Inl e
         | Inr date \<Rightarrow>
             let working' =
                   (if weekday (dt_date date) < 5 \<and> dt_date date \<notin> set closed_dates
                    then working_days_from_deadline + 1 else working_days_from_deadline);
                 days' = days_from_deadline + 1
             in if days' > 1000 then Inl SystemExit
                else scan_working_days days_to_mark closed_dates deadline working' days')
      else Inr days_from_deadline)"
  by pat_completeness auto
termination
  by (relation "measure (\<lambda>(m, c, d, w, n). nat (1001 - n))") auto

declare scan_working_days.simps [simp del]

text \<open>\<open>[datetime.datetime(i[0], i[1], i[2]) for i in READABLE_CLOSED_DAYS]\<close>\<close>

fun closed_days_of :: "(int \<times> int \<times> int) list \<Rightarrow> error + datetime list" where
  "closed_days_of [] = Inr []"
| "closed_days_of ((y, m, d) # r) =
     bind_err (datetime_new y m d) (\<lambda>c. bind_err (closed_days_of r) (\<lambda>cs. Inr (c # cs)))"

definition days_since_deadline_at ::
  "int \<Rightarrow> (int \<times> int \<times> int) list \<Rightarrow> datetime \<Rightarrow> datetime \<Rightarrow> error + (int \<times> datetime \<times> bool)"
where
  "days_since_deadline_at days_to_mark readable_closed_days today deadline =
     bind_err (closed_days_of readable_closed_days) (\<lambda>closed_days.
       let closed_dates = map dt_date closed_days;
           days_elapsed = ceil_days (dt_diff today deadline)
       in bind_err (remove_weekends deadline [1 .. days_elapsed] days_elapsed) (\<lambda>days_elapsed.
            let days_elapsed = remove_closed today deadline closed_days days_elapsed
            in bind_err (scan_working_days days_to_mark closed_dates deadline 0 1)
                 (\<lambda>days_from_deadline.
                    bind_err (dt_add_days deadline (days_from_deadline - 1))
                      (\<lambda>marking_deadline.
                         let is_working_day =
                               (weekday (dt_date today) < 5 \<and> dt_date today \<notin> set closed_dates)
                         in Inr (days_elapsed - 1, marking_deadline, is_working_day)))))"

definition DAYS_TO_MARK :: int where
  "DAYS_TO_MARK = 15"

definition READABLE_CLOSED_DAYS :: "(int \<times> int \<times> int) list" where
  "READABLE_CLOSED_DAYS =
     [(2022, 12, 19), (2022, 12, 20), (2022, 12, 21), (2022, 12, 22), (2022, 12, 23),
      (2022, 12, 26), (2022, 12, 27), (2022, 12, 28), (2022, 12, 29), (2022, 12, 30),
      (2023, 1, 2),
      (2023, 4, 7), (2023, 4, 10), (2023, 4, 11), (2023, 4, 12),
      (2023, 5, 1), (2023, 5, 29), (2023, 8, 28)]"

text \<open>The function of the source; \<open>today\<close> is what the clock returned.\<close>

definition days_since_deadline :: "datetime \<Rightarrow> datetime \<Rightarrow> error + (int \<times> datetime \<times> bool)" where
  "days_since_deadline today deadline =
     days_since_deadline_at DAYS_TO_MARK READABLE_CLOSED_DAYS today deadline"

subsection \<open>Notions used to state the properties\<close>

text \<open>The calendar day \<open>i\<close> days after the day of the deadline.\<close>

definition day_after :: "datetime \<Rightarrow> int \<Rightarrow> date" where
  "day_after deadline i = fromordinal (toordinal (dt_date deadline) + i)"

text \<open>Midnight of a day, as \<open>closed_days\<close> holds it.\<close>

definition midnight :: "int \<times> int \<times> int \<Rightarrow> datetime" where
  "midnight t = (case t of (y, m, d) \<Rightarrow> \<lparr>dt_date = \<lparr>year = y, month = m, day = d\<rparr>, dt_time = 0\<rparr>)"

definition closed_dates_of :: "(int \<times> int \<times> int) list \<Rightarrow> date list" where
  "closed_dates_of r = map (\<lambda>t. dt_date (midnight t)) r"

text \<open>A working day: Monday to Friday and not closed.\<close>

definition working_day :: "date list \<Rightarrow> date \<Rightarrow> bool" where
  "working_day closed_dates d = (weekday d < 5 \<and> d \<notin> set closed_dates)"

text \<open>The number of working days among the days \<open>deadline + a\<close>, ..., \<open>deadline + b\<close>.\<close>

definition working_count :: "date list \<Rightarrow> datetime \<Rightarrow> int \<Rightarrow> int \<Rightarrow> int" where
  "working_count closed_dates deadline a b =
     int (length (filter (\<lambda>i. working_day closed_dates (day_after deadline i)) [a .. b]))"

text \<open>The number of Saturdays and Sundays among \<open>deadline + 1\<close>, ..., \<open>deadline + n\<close>.\<close>

definition weekend_count :: "datetime \<Rightarrow> int \<Rightarrow> int" where
  "weekend_count deadline n =
     int (length (filter (\<lambda>i. weekday (day_after deadline i) > 4) [1 .. n]))"

text \<open>
  The place of a datetime on the time line, in microseconds, and the number of days from
  the deadline to today, rounded up to whole days: the exact ceiling, with no float.
\<close>

definition timeline :: "datetime \<Rightarrow> int" where
  "timeline t = toordinal (dt_date t) * 86400000000 + dt_time t"

definition exact_days_elapsed :: "datetime \<Rightarrow> datetime \<Rightarrow> int" where
  "exact_days_elapsed today deadline =
     \<lceil>(of_int (timeline today - timeline deadline) / 86400000000 :: rat)\<rceil>"

text \<open>The number of closed days strictly after the deadline and strictly before today.\<close>

definition closed_count :: "datetime \<Rightarrow> datetime \<Rightarrow> datetime list \<Rightarrow> int" where
  "closed_count today deadline closed_days =
     int (length (filter (\<lambda>c. timeline deadline < timeline c \<and> timeline c < timeline today)
            closed_days))"

text \<open>The numbers a double holds exactly: a significand below 2 to the 53 and any exponent.\<close>

definition representable :: "rat \<Rightarrow> bool" where
  "representable x = (\<exists>n j. \<bar>n\<bar> < 2 ^ 53 \<and> x = of_int n * 2 powi j)"

text \<open>
  The number of calendar days that fifteen weekdays take, counted from the day after a day
  with weekday \<open>wd\<close>.
\<close>

definition marking_offset :: "int \<Rightarrow> int" where
  "marking_offset wd = (if wd < 5 then 21 else if wd = 5 then 20 else 19)"

text \<open>
  The closed-day list that blocks the scan: every one of the 1000 days after the deadline.
\<close>

definition all_closed :: "datetime \<Rightarrow> (int \<times> int \<times> int) list" where
  "all_closed deadline =
     map (\<lambda>i. let d = day_after deadline i in (year d, month d, day d)) [1 .. 1000]"

section \<open>Properties of the calendar model\<close>

subsection \<open>Years, leap years and ordinals\<close>

text \<open>
  Every year is \<open>400 q + 100 a + 4 b + c + 1\<close> with digits \<open>a \<le> 3\<close>, \<open>b \<le> 24\<close>,
  \<open>c \<le> 3\<close>; the days before it and its leap status are read off the digits.
\<close>

lemma dby_decomp:
  assumes "0 \<le> a" "a \<le> 3" "0 \<le> b" "b \<le> 24" "0 \<le> c" "c \<le> 3"
  shows "days_before_year (400 * q + 100 * a + 4 * b + c + 1)
           = 146097 * q + 36524 * a + 1461 * b + 365 * c"
proof -
  let ?z = "400 * q + 100 * a + 4 * b + c"
  have d400: "?z div 400 = q"
    by (rule int_div_pos_eq [where r = "100 * a + 4 * b + c"]) (use assms in auto)
  have d100: "?z div 100 = 4 * q + a"
    by (rule int_div_pos_eq [where r = "4 * b + c"]) (use assms in auto)
  have d4: "?z div 4 = 100 * q + 25 * a + b"
    by (rule int_div_pos_eq [where r = c]) (use assms in auto)
  show ?thesis
    unfolding days_before_year_def Let_def using d400 d100 d4 by simp
qed

lemma is_leap_decomp:
  assumes "0 \<le> a" "a \<le> 3" "0 \<le> b" "b \<le> 24" "0 \<le> c" "c \<le> 3"
  shows "is_leap (400 * q + 100 * a + 4 * b + c + 1) = (c = 3 \<and> (b \<noteq> 24 \<or> a = 3))"
proof -
  let ?y = "400 * q + 100 * a + 4 * b + c + 1"
  show ?thesis
  proof (cases "c = 3")
    case False
    have "?y mod 4 = c + 1"
      by (rule int_mod_pos_eq [where q = "100 * q + 25 * a + b"]) (use assms False in auto)
    with False assms show ?thesis by (simp add: is_leap_def)
  next
    case c3: True
    have m4: "?y mod 4 = 0"
      by (rule int_mod_pos_eq [where q = "100 * q + 25 * a + b + 1"]) (use c3 in auto)
    show ?thesis
    proof (cases "b = 24")
      case False
      have "?y mod 100 = 4 * (b + 1)"
        by (rule int_mod_pos_eq [where q = "4 * q + a"]) (use assms False c3 in auto)
      with False c3 m4 assms show ?thesis by (simp add: is_leap_def)
    next
      case b24: True
      have m100: "?y mod 100 = 0"
        by (rule int_mod_pos_eq [where q = "4 * q + a + 1"]) (use c3 b24 in auto)
      show ?thesis
      proof (cases "a = 3")
        case True
        have "?y mod 400 = 0"
          by (rule int_mod_pos_eq [where q = "q + 1"]) (use c3 b24 True in auto)
        with True c3 b24 m4 show ?thesis by (simp add: is_leap_def)
      next
        case False
        have "?y mod 400 = 100 * (a + 1)"
          by (rule int_mod_pos_eq [where q = q]) (use assms False c3 b24 in auto)
        with False c3 b24 m4 m100 assms show ?thesis by (simp add: is_leap_def)
      qed
    qed
  qed
qed

lemma year_decomp:
  "\<exists>q a b c. (z::int) = 400 * q + 100 * a + 4 * b + c \<and> 0 \<le> a \<and> a \<le> 3 \<and> 0 \<le> b \<and> b \<le> 24
     \<and> 0 \<le> c \<and> c \<le> 3"
proof -
  define q where "q = z div 400"
  define r where "r = z mod 400"
  define a where "a = r div 100"
  define r' where "r' = r mod 100"
  define b where "b = r' div 4"
  define c where "c = r' mod 4"
  have "z = 400 * q + r" "0 \<le> r" "r < 400" by (simp_all add: q_def r_def)
  moreover have "r = 100 * a + r'" "0 \<le> r'" "r' < 100" by (simp_all add: a_def r'_def)
  moreover have "r' = 4 * b + c" "0 \<le> c" "c < 4" by (simp_all add: b_def c_def)
  ultimately have "z = 400 * q + 100 * a + 4 * b + c \<and> 0 \<le> a \<and> a \<le> 3 \<and> 0 \<le> b \<and> b \<le> 24
     \<and> 0 \<le> c \<and> c \<le> 3" by linarith
  then show ?thesis by blast
qed

text \<open>The month estimate of \<open>_ord2ymd\<close>, checked on every day of a year.\<close>

lemma month_day_all:
  "\<forall>n\<in>{0..364}. \<forall>leap. case month_day leap n of (m, d) \<Rightarrow>
      1 \<le> m \<and> m \<le> 12 \<and> 1 \<le> d \<and> d \<le> DAYS_IN_MONTH m + (if m = 2 \<and> leap then 1 else 0)
      \<and> DAYS_BEFORE_MONTH m + (if m > 2 \<and> leap then 1 else 0) + d = n + 1"
  by code_simp

lemma month_day_ok:
  assumes "0 \<le> n" "n \<le> 364" "month_day leap n = (m, d)"
  shows "1 \<le> m" "m \<le> 12" "1 \<le> d" "d \<le> DAYS_IN_MONTH m + (if m = 2 \<and> leap then 1 else 0)"
    "DAYS_BEFORE_MONTH m + (if m > 2 \<and> leap then 1 else 0) + d = n + 1"
proof -
  have "n \<in> {0..364}" using assms by simp
  from bspec [OF month_day_all this] have "case month_day leap n of (m, d) \<Rightarrow>
      1 \<le> m \<and> m \<le> 12 \<and> 1 \<le> d \<and> d \<le> DAYS_IN_MONTH m + (if m = 2 \<and> leap then 1 else 0)
      \<and> DAYS_BEFORE_MONTH m + (if m > 2 \<and> leap then 1 else 0) + d = n + 1"
    by (rule spec)
  then have *: "1 \<le> m \<and> m \<le> 12 \<and> 1 \<le> d \<and> d \<le> DAYS_IN_MONTH m + (if m = 2 \<and> leap then 1 else 0)
      \<and> DAYS_BEFORE_MONTH m + (if m > 2 \<and> leap then 1 else 0) + d = n + 1"
    by (simp only: assms(3) prod.case)
  from * show "1 \<le> m" by blast
  from * show "m \<le> 12" by blast
  from * show "1 \<le> d" by blast
  from * show "d \<le> DAYS_IN_MONTH m + (if m = 2 \<and> leap then 1 else 0)" by blast
  from * show "DAYS_BEFORE_MONTH m + (if m > 2 \<and> leap then 1 else 0) + d = n + 1" by blast
qed

lemma ord2ymd_correct:
  assumes "1 \<le> n"
  shows "ord_ok n (ord2ymd n)"
proof -
  define k where "k = n - 1"
  define q where "q = k div 146097"
  define r where "r = k mod 146097"
  define a where "a = r div 36524"
  define r' where "r' = r mod 36524"
  define b where "b = r' div 1461"
  define r'' where "r'' = r' mod 1461"
  define c where "c = r'' div 365"
  define e where "e = r'' mod 365"
  have k: "0 \<le> k" "n = k + 1" using assms by (simp_all add: k_def)
  have q: "k = 146097 * q + r" "0 \<le> r" "r < 146097" by (simp_all add: q_def r_def)
  have q0: "0 \<le> q" using k by (simp add: q_def pos_imp_zdiv_nonneg_iff)
  have a: "r = 36524 * a + r'" "0 \<le> r'" "r' < 36524" by (simp_all add: a_def r'_def)
  have a0: "0 \<le> a" using q by (simp add: a_def pos_imp_zdiv_nonneg_iff)
  have b: "r' = 1461 * b + r''" "0 \<le> r''" "r'' < 1461" by (simp_all add: b_def r''_def)
  have b0: "0 \<le> b" using a by (simp add: b_def pos_imp_zdiv_nonneg_iff)
  have c: "r'' = 365 * c + e" "0 \<le> e" "e < 365" by (simp_all add: c_def e_def)
  have c0: "0 \<le> c" using b by (simp add: c_def pos_imp_zdiv_nonneg_iff)
  have a4: "a \<le> 4" using q a a0 b0 c0 b c by linarith
  have b24: "b \<le> 24" using a b c0 c by linarith
  have c4: "c \<le> 4" using b c by linarith
  define L where "L = (c = 3 \<and> (b \<noteq> 24 \<or> a = 3))"
  have unf: "ord2ymd n =
     (if c = 4 \<or> a = 4 then \<lparr>year = q * 400 + 1 + a * 100 + b * 4 + c - 1, month = 12, day = 31\<rparr>
      else let (m, d) = month_day L e
           in \<lparr>year = q * 400 + 1 + a * 100 + b * 4 + c, month = m, day = d\<rparr>)"
    by (simp add: ord2ymd_def Let_def k_def q_def r_def a_def r'_def b_def r''_def c_def e_def L_def)
  show ?thesis
  proof (cases "a = 4")
    case True
    then have z: "r' = 0" "b = 0" "r'' = 0" "c = 0" "e = 0" "r = 146096"
      using q a a0 b0 c0 b c by linarith+
    have y: "q * 400 + 1 + a * 100 + b * 4 + c - 1 = 400 * q + 100 * 3 + 4 * 24 + 3 + 1"
      using True z by simp
    have "ord2ymd n = \<lparr>year = 400 * q + 100 * 3 + 4 * 24 + 3 + 1, month = 12, day = 31\<rparr>"
      using unf True y by simp
    moreover have "days_before_year (400 * q + 100 * 3 + 4 * 24 + 3 + 1) = 146097 * q + 145731"
      by (subst dby_decomp) simp_all
    moreover have "is_leap (400 * q + 100 * 3 + 4 * 24 + 3 + 1)"
      by (subst is_leap_decomp) simp_all
    ultimately show ?thesis
      using q0 k q z
      by (simp add: ord_ok_def toordinal_def ymd2ord_def days_in_month_def days_before_month_def
            DAYS_IN_MONTH_def DAYS_BEFORE_MONTH_def)
  next
    case an4: False
    then have a3: "a \<le> 3" using a4 by simp
    show ?thesis
    proof (cases "c = 4")
      case True
      then have z: "e = 0" "r'' = 1460" using b c by linarith+
      have b23: "b \<le> 23" using a b z by linarith
      have y: "q * 400 + 1 + a * 100 + b * 4 + c - 1 = 400 * q + 100 * a + 4 * b + 3 + 1"
        using True by simp
      have "ord2ymd n = \<lparr>year = 400 * q + 100 * a + 4 * b + 3 + 1, month = 12, day = 31\<rparr>"
        using unf True y by simp
      moreover have "days_before_year (400 * q + 100 * a + 4 * b + 3 + 1)
          = 146097 * q + 36524 * a + 1461 * b + 365 * 3"
        by (rule dby_decomp) (use a0 a3 b0 b24 in simp_all)
      moreover have "is_leap (400 * q + 100 * a + 4 * b + 3 + 1)"
        by (subst is_leap_decomp) (use a0 a3 b0 b24 b23 in simp_all)
      ultimately show ?thesis
        using q0 a0 b0 k q a b z
        by (simp add: ord_ok_def toordinal_def ymd2ord_def days_in_month_def days_before_month_def
              DAYS_IN_MONTH_def DAYS_BEFORE_MONTH_def)
    next
      case cn4: False
      then have c3: "c \<le> 3" using c4 by simp
      obtain m d where md: "month_day L e = (m, d)"
        by (cases "month_day L e") auto
      have y: "q * 400 + 1 + a * 100 + b * 4 + c = 400 * q + 100 * a + 4 * b + c + 1" by simp
      have o: "ord2ymd n = \<lparr>year = 400 * q + 100 * a + 4 * b + c + 1, month = m, day = d\<rparr>"
        using unf an4 cn4 md y by simp
      have dby: "days_before_year (400 * q + 100 * a + 4 * b + c + 1)
          = 146097 * q + 36524 * a + 1461 * b + 365 * c"
        by (rule dby_decomp) (use a0 a3 b0 b24 c0 c3 in simp_all)
      have lp: "is_leap (400 * q + 100 * a + 4 * b + c + 1) = L"
        unfolding L_def by (rule is_leap_decomp) (use a0 a3 b0 b24 c0 c3 in simp_all)
      have e364: "e \<le> 364" using c by simp
      note mdo = month_day_ok [OF c(2) e364 md]
      have dim: "d \<le> days_in_month (400 * q + 100 * a + 4 * b + c + 1) m"
        using mdo(4) by (simp add: days_in_month_def lp DAYS_IN_MONTH_def split: if_splits)
      have ord: "ymd2ord (400 * q + 100 * a + 4 * b + c + 1) m d = n"
        using mdo(5) k q a b c by (simp add: ymd2ord_def dby days_before_month_def lp)
      have "1 \<le> 400 * q + 100 * a + 4 * b + c + 1" using q0 a0 b0 c0 by simp
      then show ?thesis
        using o mdo(1,2,3) dim ord by (simp add: ord_ok_def toordinal_def)
    qed
  qed
qed

lemma dby_step:
  "days_before_year (y + 1) = days_before_year y + (if is_leap y then 366 else 365)"
proof -
  obtain q a b c where d: "y - 1 = 400 * q + 100 * a + 4 * b + c" "0 \<le> a" "a \<le> 3"
      "0 \<le> b" "b \<le> 24" "0 \<le> c" "c \<le> 3"
    using year_decomp [of "y - 1"] by blast
  have y: "y = 400 * q + 100 * a + 4 * b + c + 1" using d(1) by simp
  have dy: "days_before_year y = 146097 * q + 36524 * a + 1461 * b + 365 * c"
    unfolding y by (rule dby_decomp) (use d in simp_all)
  have ly: "is_leap y = (c = 3 \<and> (b \<noteq> 24 \<or> a = 3))"
    unfolding y by (rule is_leap_decomp) (use d in simp_all)
  show ?thesis
  proof (cases "c = 3")
    case False
    have "y + 1 = 400 * q + 100 * a + 4 * b + (c + 1) + 1" using y by simp
    moreover have "days_before_year (400 * q + 100 * a + 4 * b + (c + 1) + 1)
        = 146097 * q + 36524 * a + 1461 * b + 365 * (c + 1)"
      by (rule dby_decomp) (use d False in simp_all)
    ultimately show ?thesis using dy ly False by simp
  next
    case c3: True
    show ?thesis
    proof (cases "b = 24")
      case False
      have "y + 1 = 400 * q + 100 * a + 4 * (b + 1) + 0 + 1" using y c3 by simp
      moreover have "days_before_year (400 * q + 100 * a + 4 * (b + 1) + 0 + 1)
          = 146097 * q + 36524 * a + 1461 * (b + 1) + 365 * 0"
        by (rule dby_decomp) (use d False in simp_all)
      ultimately show ?thesis using dy ly False c3 by simp
    next
      case b24: True
      show ?thesis
      proof (cases "a = 3")
        case False
        have "y + 1 = 400 * q + 100 * (a + 1) + 4 * 0 + 0 + 1" using y c3 b24 by simp
        moreover have "days_before_year (400 * q + 100 * (a + 1) + 4 * 0 + 0 + 1)
            = 146097 * q + 36524 * (a + 1) + 1461 * 0 + 365 * 0"
          by (rule dby_decomp) (use d False in simp_all)
        ultimately show ?thesis using dy ly False c3 b24 by simp
      next
        case True
        have "y + 1 = 400 * (q + 1) + 100 * 0 + 4 * 0 + 0 + 1" using y c3 b24 True by simp
        moreover have "days_before_year (400 * (q + 1) + 100 * 0 + 4 * 0 + 0 + 1)
            = 146097 * (q + 1) + 36524 * 0 + 1461 * 0 + 365 * 0"
          by (rule dby_decomp) simp_all
        ultimately show ?thesis using dy ly True c3 b24 by simp
      qed
    qed
  qed
qed

lemma dby_mono: "y \<le> y' \<Longrightarrow> days_before_year y \<le> days_before_year y'"
proof (induction y' rule: int_ge_induct)
  case base
  show ?case by simp
next
  case (step i)
  then show ?case using dby_step [of i] by (simp split: if_splits)
qed

lemma dby_1: "days_before_year 1 = 0"
  by (simp add: days_before_year_def)

lemma dby_10000: "days_before_year 10000 = 3652059"
  by (simp add: days_before_year_def)

lemma dbm_next:
  assumes "1 \<le> m" "m \<le> 11"
  shows "days_before_month y (m + 1) = days_before_month y m + days_in_month y m"
proof -
  have "m = 1 \<or> m = 2 \<or> m = 3 \<or> m = 4 \<or> m = 5 \<or> m = 6 \<or> m = 7 \<or> m = 8 \<or> m = 9 \<or> m = 10
    \<or> m = 11" using assms by arith
  then show ?thesis
    by (elim disjE)
      (simp_all add: days_before_month_def days_in_month_def DAYS_BEFORE_MONTH_def DAYS_IN_MONTH_def)
qed

lemma dim_pos: "1 \<le> m \<Longrightarrow> m \<le> 12 \<Longrightarrow> 28 \<le> days_in_month y m \<and> days_in_month y m \<le> 31"
  by (simp add: days_in_month_def DAYS_IN_MONTH_def)

lemma dbm_mono:
  assumes "1 \<le> m" "m \<le> m'" "m' \<le> 12"
  shows "days_before_month y m \<le> days_before_month y m'"
  using assms(2,1,3)
proof (induction m' rule: int_ge_induct)
  case base
  show ?case by simp
next
  case (step i)
  then show ?case using dbm_next [of i y] dim_pos [of i y] by simp
qed

lemma dbm_12: "days_before_month y 12 + days_in_month y 12 = (if is_leap y then 366 else 365)"
  by (simp add: days_before_month_def days_in_month_def DAYS_BEFORE_MONTH_def DAYS_IN_MONTH_def)

lemma dbm_1: "days_before_month y 1 = 0"
  by (simp add: days_before_month_def DAYS_BEFORE_MONTH_def)

text \<open>The day of the year of a well-formed month and day.\<close>

lemma yday_bounds:
  assumes "1 \<le> m" "m \<le> 12" "1 \<le> d" "d \<le> days_in_month y m"
  shows "1 \<le> days_before_month y m + d"
    and "days_before_year y + days_before_month y m + d \<le> days_before_year (y + 1)"
proof -
  have "days_before_month y 1 \<le> days_before_month y m"
    by (rule dbm_mono) (use assms in simp_all)
  then show "1 \<le> days_before_month y m + d" using assms(3) dbm_1 [of y] by simp
  have "days_before_month y m + days_in_month y m
      \<le> days_before_month y 12 + days_in_month y 12"
  proof (cases "m = 12")
    case True
    then show ?thesis by simp
  next
    case False
    then have "days_before_month y (m + 1) \<le> days_before_month y 12"
      by (intro dbm_mono) (use assms in simp_all)
    moreover have "days_before_month y (m + 1) = days_before_month y m + days_in_month y m"
      by (rule dbm_next) (use assms False in simp_all)
    ultimately show ?thesis using dim_pos [of 12 y] by simp
  qed
  then show "days_before_year y + days_before_month y m + d \<le> days_before_year (y + 1)"
    using assms(4) dbm_12 [of y] dby_step [of y] by (simp split: if_splits)
qed

lemma toordinal_strict:
  assumes "md_ok a" "md_ok b" "date_lt a b"
  shows "toordinal a < toordinal b"
proof -
  from assms(3) consider
      (y) "year a < year b"
    | (m) "year a = year b" "month a < month b"
    | (d) "year a = year b" "month a = month b" "day a < day b"
    by (cases a; cases b) (auto simp: date_lt_def date_le_def)
  then show ?thesis
  proof cases
    case y
    have "toordinal a \<le> days_before_year (year a + 1)"
      unfolding toordinal_def ymd2ord_def by (rule yday_bounds(2)) (use assms(1) in \<open>simp_all add: md_ok_def\<close>)
    also have "\<dots> \<le> days_before_year (year b)"
      by (rule dby_mono) (use y in simp)
    also have "\<dots> < toordinal b"
      using yday_bounds(1) [of "month b" "day b" "year b"] assms(2)
      by (simp add: toordinal_def ymd2ord_def md_ok_def)
    finally show ?thesis .
  next
    case m
    have "days_before_month (year a) (month a) + day a
        \<le> days_before_month (year a) (month a) + days_in_month (year a) (month a)"
      using assms(1) by (simp add: md_ok_def)
    also have "\<dots> = days_before_month (year a) (month a + 1)"
      by (rule dbm_next [symmetric]) (use assms m in \<open>simp_all add: md_ok_def\<close>)
    also have "\<dots> \<le> days_before_month (year a) (month b)"
      by (rule dbm_mono) (use assms m in \<open>simp_all add: md_ok_def\<close>)
    also have "\<dots> < days_before_month (year a) (month b) + day b"
      using assms(2) by (simp add: md_ok_def)
    finally show ?thesis using m by (simp add: toordinal_def ymd2ord_def)
  next
    case d
    then show ?thesis by (simp add: toordinal_def ymd2ord_def)
  qed
qed

lemma date_lt_total: "date_lt a b \<or> a = b \<or> date_lt b a"
  by (cases a; cases b) (auto simp: date_lt_def date_le_def)

lemma date_le_lt: "date_le a b = (date_lt a b \<or> a = b)"
  by (cases a; cases b) (auto simp: date_lt_def date_le_def)

lemma toordinal_inj:
  assumes "md_ok a" "md_ok b" "toordinal a = toordinal b"
  shows "a = b"
  using date_lt_total [of a b] toordinal_strict [OF assms(1,2)] toordinal_strict [OF assms(2,1)]
    assms(3) by auto

lemma date_le_iff:
  assumes "md_ok a" "md_ok b"
  shows "date_le a b = (toordinal a \<le> toordinal b)"
  using date_lt_total [of a b] toordinal_strict [OF assms(1,2)] toordinal_strict [OF assms(2,1)]
  by (auto simp: date_le_lt)

lemma date_lt_iff:
  assumes "md_ok a" "md_ok b"
  shows "date_lt a b = (toordinal a < toordinal b)"
  using date_lt_total [of a b] toordinal_strict [OF assms(1,2)] toordinal_strict [OF assms(2,1)]
  by auto

lemma valid_md_ok: "valid_date d \<Longrightarrow> md_ok d"
  by (simp add: valid_date_def valid_ymd_def md_ok_def)

lemma toordinal_range:
  assumes "valid_date d"
  shows "1 \<le> toordinal d" "toordinal d \<le> MAXORDINAL"
proof -
  have y: "1 \<le> year d" "year d \<le> 9999" and md: "md_ok d"
    using assms by (simp_all add: valid_date_def valid_ymd_def md_ok_def MINYEAR_def MAXYEAR_def)
  have "days_before_year 1 \<le> days_before_year (year d)" by (rule dby_mono) (rule y)
  then show "1 \<le> toordinal d"
    using yday_bounds(1) [of "month d" "day d" "year d"] md dby_1
    by (simp add: toordinal_def ymd2ord_def md_ok_def)
  have "toordinal d \<le> days_before_year (year d + 1)"
    unfolding toordinal_def ymd2ord_def by (rule yday_bounds(2)) (use md in \<open>simp_all add: md_ok_def\<close>)
  also have "\<dots> \<le> days_before_year 10000" by (rule dby_mono) (use y in simp)
  finally show "toordinal d \<le> MAXORDINAL" by (simp add: dby_10000 MAXORDINAL_def)
qed

lemma fromordinal_valid:
  assumes "1 \<le> n" "n \<le> MAXORDINAL"
  shows "valid_date (fromordinal n)" "toordinal (fromordinal n) = n"
proof -
  let ?d = "fromordinal n"
  have ok: "ord_ok n ?d" unfolding fromordinal_def by (rule ord2ymd_correct) (rule assms)
  then show t: "toordinal ?d = n" by (simp add: ord_ok_def)
  have md: "md_ok ?d" using ok by (simp add: ord_ok_def md_ok_def)
  have "year ?d \<le> 9999"
  proof (rule ccontr)
    assume "\<not> year ?d \<le> 9999"
    then have "days_before_year 10000 \<le> days_before_year (year ?d)" by (intro dby_mono) simp
    moreover have "days_before_year (year ?d) < toordinal ?d"
      using yday_bounds(1) [of "month ?d" "day ?d" "year ?d"] md
      by (simp add: toordinal_def ymd2ord_def md_ok_def)
    ultimately show False using t assms(2) by (simp add: dby_10000 MAXORDINAL_def)
  qed
  then show "valid_date ?d"
    using ok by (simp add: valid_date_def valid_ymd_def ord_ok_def MINYEAR_def MAXYEAR_def)
qed

lemma fromordinal_toordinal:
  assumes "valid_date d"
  shows "fromordinal (toordinal d) = d"
proof -
  note r = toordinal_range [OF assms]
  note f = fromordinal_valid [OF r]
  show ?thesis
    by (rule toordinal_inj) (use f assms in \<open>simp_all add: valid_md_ok\<close>)
qed

subsection \<open>Weekdays and the month calendar\<close>

lemma weekday_range: "0 \<le> weekday d" "weekday d < 7"
  by (simp_all add: weekday_def)

lemma weekday_same_month:
  "weekday \<lparr>year = y, month = m, day = k\<rparr> = (weekday \<lparr>year = y, month = m, day = 1\<rparr> + (k - 1)) mod 7"
proof -
  define t where "t = days_before_year y + days_before_month y m"
  have "((t + 7) mod 7 + (k - 1)) mod 7 = (t + 7 + (k - 1)) mod 7"
    by (rule mod_add_left_eq)
  also have "t + 7 + (k - 1) = t + k + 6" by simp
  finally show ?thesis
    by (simp add: weekday_def toordinal_def ymd2ord_def t_def add.assoc)
qed

lemma weekday_enum: "weekday d = 0 \<or> weekday d = 1 \<or> weekday d = 2 \<or> weekday d = 3
    \<or> weekday d = 4 \<or> weekday d = 5 \<or> weekday d = 6"
  using weekday_range [of d] by arith

lemma dates_of_valid:
  assumes "\<forall>t\<in>set ts. case t of (y, m, d) \<Rightarrow> valid_ymd y m d"
  shows "dates_of ts = Inr (map (\<lambda>(y, m, d). \<lparr>year = y, month = m, day = d\<rparr>) ts)"
  using assms by (induction ts) (auto simp: date_new_def bind_err_def)

lemma weeks_of_last:
  "length xs = 7 * Suc k \<Longrightarrow> weeks_of xs \<noteq> [] \<and> last (weeks_of xs) = drop (7 * k) xs"
proof (induction k arbitrary: xs)
  case 0
  then obtain x xs' where xs: "xs = x # xs'" by (cases xs) auto
  with 0 have "drop 6 xs' = []" by simp
  with xs 0 show ?case by simp
next
  case (Suc k)
  then obtain x xs' where xs: "xs = x # xs'" by (cases xs) auto
  with Suc.prems have len: "length (drop 6 xs') = 7 * Suc k" by simp
  note ih = Suc.IH [OF len]
  have "7 * Suc k = Suc (7 * k + 6)" by simp
  then have "drop (7 * Suc k) xs = drop (7 * k) (drop 6 xs')"
    unfolding xs by (simp only: drop_Suc_Cons drop_drop)
  with ih xs show ?case by simp
qed

lemma WeekOne_friday:
  assumes "1 \<le> y" "y \<le> 9999"
  defines "fd \<equiv> 25 + (4 - weekday \<lparr>year = y, month = 8, day = 1\<rparr> - 31) mod 7"
  shows "25 \<le> fd" "fd \<le> 31" "weekday \<lparr>year = y, month = 8, day = fd\<rparr> = 4"
    "WeekOne y = date_add_days \<lparr>year = y, month = 8, day = fd\<rparr> (- 4)"
proof -
  define w where "w = weekday \<lparr>year = y, month = 8, day = 1\<rparr>"
  define db where "db = (w - 4) mod 7"
  define da where "da = (4 - w - 31) mod 7"
  define mk where "mk = (\<lambda>(y, m, d). \<lparr>year = y, month = m, day = d\<rparr>)"
  have w: "0 \<le> w" "w < 7" by (simp_all add: w_def weekday_range)
  have db: "0 \<le> db" "db < 7" and da: "0 \<le> da" "da < 7" by (simp_all add: db_def da_def)
  define A where "A = map (\<lambda>d. (y, 7::int, d)) [32 - db .. 31]"
  define B where "B = map (\<lambda>d. (y, 8::int, d)) [1 .. 31]"
  define C where "C = map (\<lambda>d. (y, 9::int, d)) [1 .. da]"
  have mr: "monthrange y 8 = Inr (w, 31)"
    using assms
    by (simp add: monthrange_def cal_weekday_def date_new_def valid_ymd_def MINYEAR_def
          MAXYEAR_def bind_err_def monthlen_def days_in_month_def DAYS_IN_MONTH_def w_def)
  have it: "itermonthdays3 4 y 8 = Inr (A @ B @ C)"
    by (simp add: itermonthdays3_def mr bind_err_def prevmonth_def nextmonth_def monthlen_def
          DAYS_IN_MONTH_def Let_def A_def B_def C_def db_def da_def)
  have "\<forall>t\<in>set (A @ B @ C). case t of (y, m, d) \<Rightarrow> valid_ymd y m d"
    using assms db da
    by (auto simp: A_def B_def C_def valid_ymd_def MINYEAR_def MAXYEAR_def days_in_month_def
          DAYS_IN_MONTH_def)
  then have ds: "dates_of (A @ B @ C) = Inr (map mk (A @ B @ C))"
    unfolding mk_def by (rule dates_of_valid)
  have lA: "length A = nat db" and lB: "length B = 31" and lC: "length C = nat da"
    using db da by (simp_all add: A_def B_def C_def)
  have wenum: "w = 0 \<or> w = 1 \<or> w = 2 \<or> w = 3 \<or> w = 4 \<or> w = 5 \<or> w = 6"
    unfolding w_def by (rule weekday_enum)
  have "\<exists>j. db + da + 3 = 7 * j \<and> 0 \<le> j \<and> j \<le> 2"
    using wenum by (elim disjE) (simp_all add: db_def da_def)
  then obtain j where j: "db + da + 3 = 7 * j" and j0: "0 \<le> j" "j \<le> 2" by blast
  define k where "k = nat (j + 3)"
  have len: "length (map mk (A @ B @ C)) = 7 * Suc k"
    using j j0 db da by (simp add: lA lB lC k_def)
  have "int (7 * k) = int (nat db + (24 + nat da))"
    using j j0 db da by (simp add: k_def)
  then have idx: "7 * k = nat db + (24 + nat da)"
    by (simp only: of_nat_eq_iff)
  have nda: "nat da < 7" "int (nat da) = da" using da by simp_all
  have "(A @ B @ C) ! (nat db + (24 + nat da)) = (B @ C) ! (24 + nat da)"
    by (simp only: nth_append_length_plus lA [symmetric])
  also have "\<dots> = B ! (24 + nat da)"
    using nda(1) by (simp add: nth_append lB)
  also have "\<dots> = (y, 8, [1..31] ! (24 + nat da))"
    unfolding B_def using nda(1) by (subst nth_map) simp_all
  also have "[1..31] ! (24 + nat da) = 1 + int (24 + nat da)"
    by (rule nth_upto) (use nda in simp)
  finally have nth: "(A @ B @ C) ! (7 * k) = (y, 8, 25 + da)"
    using nda(2) by (simp add: idx)
  define dates where "dates = map mk (A @ B @ C)"
  have len': "length dates = 7 * Suc k" using len by (simp only: dates_def)
  have lt: "7 * k < length dates" using len' by simp
  have "dates ! (7 * k) = mk ((A @ B @ C) ! (7 * k))"
    unfolding dates_def by (rule nth_map) (use lt in \<open>simp add: dates_def\<close>)
  then have dn: "dates ! (7 * k) = \<lparr>year = y, month = 8, day = 25 + da\<rparr>"
    by (simp add: nth mk_def)
  have "drop (7 * k) dates = dates ! (7 * k) # drop (Suc (7 * k)) dates"
    using lt by (rule Cons_nth_drop_Suc [symmetric])
  then have fi: "first_item (drop (7 * k) dates) = Inr \<lparr>year = y, month = 8, day = 25 + da\<rparr>"
    by (simp add: first_item_def dn)
  note wl = weeks_of_last [OF len']
  have md: "monthdatescalendar 4 y 8 = Inr (weeks_of dates)"
    by (simp add: monthdatescalendar_def it ds bind_err_def dates_def)
  have W: "WeekOne y = date_add_days \<lparr>year = y, month = 8, day = 25 + da\<rparr> (- 4)"
    using wl fi by (simp add: WeekOne_def md bind_err_def last_item_def)
  have "weekday \<lparr>year = y, month = 8, day = 25 + da\<rparr> = (w + (25 + da - 1)) mod 7"
    unfolding w_def by (rule weekday_same_month)
  also have "\<dots> = 4" using wenum by (elim disjE) (simp_all add: da_def)
  finally have F: "weekday \<lparr>year = y, month = 8, day = 25 + da\<rparr> = 4" .
  have kda: "fd = 25 + da" by (simp add: fd_def da_def w_def)
  show "25 \<le> fd" "fd \<le> 31" using da by (simp_all add: kda)
  show "weekday \<lparr>year = y, month = 8, day = fd\<rparr> = 4" using F by (simp only: kda)
  show "WeekOne y = date_add_days \<lparr>year = y, month = 8, day = fd\<rparr> (- 4)"
    using W by (simp only: kda)
qed

section \<open>Properties of the week functions\<close>

lemma valid_date_year: "valid_date d \<Longrightarrow> 1 \<le> year d \<and> year d \<le> 9999"
  by (simp add: valid_date_def valid_ymd_def MINYEAR_def MAXYEAR_def)

lemma valid_august:
  "1 \<le> y \<Longrightarrow> y \<le> 9999 \<Longrightarrow> 1 \<le> k \<Longrightarrow> k \<le> 31 \<Longrightarrow> valid_date \<lparr>year = y, month = 8, day = k\<rparr>"
  by (simp add: valid_date_def valid_ymd_def MINYEAR_def MAXYEAR_def days_in_month_def
        DAYS_IN_MONTH_def)

lemma date_add_days_valid:
  assumes "valid_date r" "toordinal r = toordinal d + k"
  shows "date_add_days d k = Inr r"
  using toordinal_range [OF assms(1)] fromordinal_toordinal [OF assms(1)] assms(2)
  by (simp add: date_add_days_def Let_def)

lemma weekday_shift:
  assumes "toordinal b = toordinal a + k"
  shows "weekday b = (weekday a + k) mod 7"
proof -
  have "toordinal b + 6 = (toordinal a + 6) + k" using assms by simp
  then have "weekday b = ((toordinal a + 6) + k) mod 7" by (simp only: weekday_def)
  also have "\<dots> = ((toordinal a + 6) mod 7 + k) mod 7" by (rule mod_add_left_eq [symmetric])
  finally show ?thesis by (simp add: weekday_def)
qed

text \<open>\<open>WeekOne\<close> of a year 1..9999 is a Monday between 21 and 27 August of that year.\<close>

lemma WeekOne_monday:
  assumes "1 \<le> y" "y \<le> 9999"
  shows "\<exists>m. WeekOne y = Inr m \<and> valid_date m \<and> year m = y \<and> month m = 8 \<and> 21 \<le> day m
           \<and> day m \<le> 27 \<and> weekday m = 0"
proof -
  define fd where "fd = 25 + (4 - weekday \<lparr>year = y, month = 8, day = 1\<rparr> - 31) mod 7"
  note f = WeekOne_friday [OF assms, folded fd_def]
  let ?f = "\<lparr>year = y, month = 8, day = fd\<rparr>"
  let ?m = "\<lparr>year = y, month = 8, day = fd - 4\<rparr>"
  have vm: "valid_date ?m" by (rule valid_august) (use assms f(1,2) in simp_all)
  have t: "toordinal ?m = toordinal ?f + (- 4)"
    by (simp add: toordinal_def ymd2ord_def)
  have W: "WeekOne y = Inr ?m"
    unfolding f(4) by (rule date_add_days_valid [OF vm t])
  have "toordinal ?f = toordinal ?m + 4" using t by simp
  then have "weekday ?f = (weekday ?m + 4) mod 7" by (rule weekday_shift)
  with f(3) have "(weekday ?m + 4) mod 7 = 4" by simp
  with weekday_enum [of ?m] have "weekday ?m = 0" by (elim disjE) simp_all
  with W vm f(1,2) show ?thesis by (intro exI [of _ ?m]) simp
qed


lemma AcademicYear_valid:
  assumes "valid_date d"
  shows "\<exists>w. WeekOne (year d) = Inr w \<and> valid_date w \<and> year w = year d \<and> weekday w = 0
           \<and> AcademicYear d = Inr (if date_le w d then year d else year d - 1)"
proof -
  from valid_date_year [OF assms] WeekOne_monday [of "year d"]
  obtain w where w: "WeekOne (year d) = Inr w" "valid_date w" "year w = year d" "weekday w = 0"
    by blast
  then show ?thesis by (auto simp: AcademicYear_def bind_err_def)
qed

text \<open>
  The university week of a date is counted from \<open>WeekOne\<close> of its academic year, which has
  to be a year that \<open>WeekOne\<close> accepts.
\<close>

lemma UniversityWeek_char:
  assumes "valid_date d" "AcademicYear d = Inr ay"
  shows "1 \<le> ay \<Longrightarrow> \<exists>w. WeekOne ay = Inr w \<and> valid_date w \<and> weekday w = 0
            \<and> toordinal w \<le> toordinal d
            \<and> UniversityWeek d = Inr ((toordinal d - toordinal w) div 7 + 1)"
    and "ay < 1 \<Longrightarrow> UniversityWeek d = Inl ValueError"
    and "UniversityWeek d = Inr u \<Longrightarrow> 1 \<le> ay"
proof -
  from AcademicYear_valid [OF assms(1)]
  obtain w where w: "WeekOne (year d) = Inr w" "valid_date w" "year w = year d" "weekday w = 0"
    and a: "AcademicYear d = Inr (if date_le w d then year d else year d - 1)"
    by blast
  note yr = valid_date_year [OF assms(1)]
  have le: "date_le w d = (toordinal w \<le> toordinal d)"
    by (rule date_le_iff) (use w assms in \<open>simp_all add: valid_md_ok\<close>)
  show pos: "\<exists>w. WeekOne ay = Inr w \<and> valid_date w \<and> weekday w = 0
            \<and> toordinal w \<le> toordinal d
            \<and> UniversityWeek d = Inr ((toordinal d - toordinal w) div 7 + 1)" if "1 \<le> ay"
  proof (cases "date_le w d")
    case True
    then have "ay = year d" using a assms(2) by simp
    with True w le show ?thesis
      by (intro exI [of _ w]) (simp add: UniversityWeek_def bind_err_def date_diff_days_def)
  next
    case False
    then have ay: "ay = year d - 1" using a assms(2) by simp
    with that yr WeekOne_monday [of ay]
    obtain w' where w': "WeekOne ay = Inr w'" "valid_date w'" "year w' = ay" "weekday w' = 0"
      by auto
    have "date_lt w' d" using w'(3) ay by (simp add: date_lt_def date_le_def) auto
    then have "toordinal w' < toordinal d"
      using w'(2) assms(1) by (simp add: date_lt_iff valid_md_ok)
    with False w w' ay show ?thesis
      by (intro exI [of _ w']) (simp add: UniversityWeek_def bind_err_def date_diff_days_def)
  qed
  show neg: "UniversityWeek d = Inl ValueError" if "ay < 1"
  proof -
    have nle: "\<not> date_le w d" and ay: "ay = year d - 1"
      using a assms(2) that yr by (auto split: if_splits)
    have "year d - 1 = 0" using ay that yr by simp
    moreover have "WeekOne 0 = Inl ValueError" by code_simp
    ultimately show ?thesis using w nle by (simp add: UniversityWeek_def bind_err_def)
  qed
  show "1 \<le> ay" if "UniversityWeek d = Inr u"
    using neg that by (cases "1 \<le> ay") auto
qed

section \<open>Properties of the float model\<close>

subsection \<open>Rounding to the nearest double\<close>

lemma round_half_even_cases:
  "round_half_even y = \<lfloor>y\<rfloor> \<and> y - of_int \<lfloor>y\<rfloor> \<le> 1 / 2
   \<or> round_half_even y = \<lfloor>y\<rfloor> + 1 \<and> 1 / 2 \<le> y - of_int \<lfloor>y\<rfloor>"
  by (auto simp: round_half_even_def Let_def)

lemma round_half_even_nearest:
  "\<bar>of_int (round_half_even y) - y\<bar> \<le> \<bar>of_int n - y\<bar>"
proof -
  define f where "f = \<lfloor>y\<rfloor>"
  have f: "of_int f \<le> y" "y < of_int f + 1"
    using floor_correct [of y] by (simp_all add: f_def)
  have "n \<le> f \<or> f + 1 \<le> n" by linarith
  then have n: "(of_int n :: rat) \<le> of_int f \<or> (of_int f :: rat) + 1 \<le> of_int n"
    by (metis of_int_le_iff of_int_add of_int_1)
  from round_half_even_cases [of y]
  have "round_half_even y = f \<and> y - of_int f \<le> 1 / 2
      \<or> round_half_even y = f + 1 \<and> 1 / 2 \<le> y - of_int f"
    by (simp only: f_def)
  then show ?thesis
  proof (elim disjE conjE)
    assume r: "round_half_even y = f" and d: "y - of_int f \<le> 1 / 2"
    show ?thesis unfolding r using f n d by linarith
  next
    assume r: "round_half_even y = f + 1" and d: "1 / 2 \<le> y - of_int f"
    have "(of_int (f + 1) :: rat) = of_int f + 1" by simp
    then show ?thesis unfolding r using f n d by linarith
  qed
qed

lemma round_half_even_ge: "of_int a \<le> y \<Longrightarrow> a \<le> round_half_even y"
proof -
  assume "of_int a \<le> y"
  then have "a \<le> \<lfloor>y\<rfloor>" by (simp add: le_floor_iff)
  with round_half_even_cases [of y] show ?thesis by auto
qed

lemma round_half_even_le: "y \<le> of_int b \<Longrightarrow> round_half_even y \<le> b"
proof -
  assume b: "y \<le> of_int b"
  show ?thesis
  proof (cases "y = of_int b")
    case True
    then show ?thesis by (simp add: round_half_even_def)
  next
    case False
    with b have "y < of_int b" by simp
    then have "\<lfloor>y\<rfloor> < b" by (simp add: floor_less_iff)
    with round_half_even_cases [of y] show ?thesis by auto
  qed
qed

lemma bitlen_powi:
  assumes "0 < a"
  shows "2 powi (bitlen a - 1) \<le> (of_int a :: rat)" "(of_int a :: rat) < 2 powi (bitlen a)"
proof -
  have l: "1 \<le> bitlen a" using assms by (simp add: bitlen_alt_def)
  from bitlen_bounds [OF assms]
  have b: "2 ^ nat (bitlen a - 1) \<le> a" "a < 2 ^ nat (bitlen a)" by simp_all
  have "(of_int (2 ^ nat (bitlen a - 1)) :: rat) \<le> of_int a" using b(1) by (simp only: of_int_le_iff)
  then show "2 powi (bitlen a - 1) \<le> (of_int a :: rat)"
    using l by (simp add: power_int_def)
  have "(of_int a :: rat) < of_int (2 ^ nat (bitlen a))" using b(2) by (simp only: of_int_less_iff)
  then show "(of_int a :: rat) < 2 powi (bitlen a)"
    using l by (simp add: power_int_def)
qed

lemma binexp_bounds:
  assumes "x \<noteq> 0"
  shows "2 powi (binexp x) \<le> \<bar>x\<bar>" "\<bar>x\<bar> < 2 powi (binexp x + 1)"
proof -
  obtain a b where q: "quotient_of \<bar>x\<bar> = (a, b)" by (cases "quotient_of \<bar>x\<bar>") auto
  have b0: "0 < b" using q by (rule quotient_of_denom_pos)
  have xe: "\<bar>x\<bar> = of_int a / of_int b" using q by (rule quotient_of_div)
  have "0 < \<bar>x\<bar>" using assms by simp
  then have a0: "0 < a" using b0 by (simp add: xe zero_less_divide_iff)
  define d where "d = bitlen a - bitlen b"
  note A = bitlen_powi [OF a0]
  note B = bitlen_powi [OF b0]
  have b0': "(0::rat) < of_int b" using b0 by simp
  have "2 powi (d + 1) * (2 powi (bitlen b - 1) :: rat) = 2 powi (bitlen a)"
    by (simp add: d_def power_int_add [symmetric])
  then have "(of_int a :: rat) < 2 powi (d + 1) * 2 powi (bitlen b - 1)" using A(2) by simp
  also have "\<dots> \<le> 2 powi (d + 1) * of_int b"
    using B(1) by (intro mult_left_mono) simp_all
  finally have up: "\<bar>x\<bar> < 2 powi (d + 1)"
    using b0' by (simp add: xe divide_less_eq)
  have "2 powi (d - 1) * (2 powi (bitlen b) :: rat) = 2 powi (bitlen a - 1)"
    by (simp add: d_def power_int_add [symmetric])
  moreover have "2 powi (d - 1) * (of_int b :: rat) \<le> 2 powi (d - 1) * 2 powi (bitlen b)"
    using B(2) by (intro mult_left_mono) simp_all
  ultimately have "2 powi (d - 1) * (of_int b :: rat) \<le> of_int a" using A(1) by simp
  then have lo: "2 powi (d - 1) \<le> \<bar>x\<bar>"
    using b0' by (simp add: xe le_divide_eq)
  have e: "binexp x = (if 2 powi d \<le> \<bar>x\<bar> then d else d - 1)"
    by (simp add: binexp_def q d_def Let_def)
  show "2 powi (binexp x) \<le> \<bar>x\<bar>" using lo by (simp add: e)
  show "\<bar>x\<bar> < 2 powi (binexp x + 1)" using up by (simp add: e not_le)
qed

lemma fl_scaled:
  assumes "x \<noteq> 0"
  defines "u \<equiv> (2::rat) powi (binexp x - 52)"
  shows "0 < u" "fl x = of_int (round_half_even (x / u)) * u"
    "2 ^ 52 * u = 2 powi (binexp x)" "2 ^ 52 * u \<le> \<bar>x\<bar>" "\<bar>x\<bar> < 2 ^ 53 * u"
proof -
  show "0 < u" by (simp add: u_def)
  show "fl x = of_int (round_half_even (x / u)) * u"
    using assms(1) by (simp add: fl_def u_def Let_def)
  have "(2::rat) powi 52 * 2 powi (binexp x - 52) = 2 powi (binexp x)"
    using power_int_add [of "2::rat" 52 "binexp x - 52"] by simp
  then show a: "2 ^ 52 * u = 2 powi (binexp x)" by (simp add: u_def)
  have "(2::rat) powi (53 + (binexp x - 52)) = 2 powi 53 * 2 powi (binexp x - 52)"
    by (rule power_int_add) simp
  moreover have "53 + (binexp x - 52) = binexp x + 1" by simp
  ultimately have b: "2 ^ 53 * u = 2 powi (binexp x + 1)" by (simp add: u_def)
  show "2 ^ 52 * u \<le> \<bar>x\<bar>" unfolding a by (rule binexp_bounds(1) [OF assms(1)])
  show "\<bar>x\<bar> < 2 ^ 53 * u" unfolding b by (rule binexp_bounds(2) [OF assms(1)])
qed

lemma fl_zero: "fl 0 = 0"
  by (simp add: fl_def)

lemma fl_representable: "representable (fl x)"
proof (cases "x = 0")
  case True
  have "(0::rat) = of_int 0 * 2 powi 0" by simp
  moreover have "\<bar>0::int\<bar> < 2 ^ 53" by simp
  ultimately show ?thesis unfolding True fl_zero representable_def by blast
next
  case False
  define u :: rat where "u = 2 powi (binexp x - 52)"
  note s = fl_scaled [OF False, folded u_def]
  define n where "n = round_half_even (x / u)"
  have t: "x / u \<le> 2 ^ 53" "- (2 ^ 53) \<le> x / u"
    using s(1,5) by (simp_all add: field_simps abs_less_iff)
  have "x / u \<le> of_int (2 ^ 53)" using t(1) by simp
  then have n1: "n \<le> 2 ^ 53" unfolding n_def by (rule round_half_even_le)
  have "of_int (- (2 ^ 53)) \<le> x / u" using t(2) by simp
  then have n2: "- (2 ^ 53) \<le> n" unfolding n_def by (rule round_half_even_ge)
  show ?thesis
  proof (cases "\<bar>n\<bar> < 2 ^ 53")
    case True
    have "fl x = of_int n * 2 powi (binexp x - 52)" using s(2) by (simp add: n_def u_def)
    with True show ?thesis unfolding representable_def by blast
  next
    case False
    have "n \<le> 9007199254740992" "- 9007199254740992 \<le> n" "\<not> \<bar>n\<bar> < 9007199254740992"
      using n1 n2 False by simp_all
    then have "n = 2 * 4503599627370496 \<or> n = 2 * (- 4503599627370496)" by linarith
    moreover have "\<bar>4503599627370496 :: int\<bar> < 2 ^ 53" "\<bar>- 4503599627370496 :: int\<bar> < 2 ^ 53"
      by simp_all
    ultimately obtain m :: int where m: "n = 2 * m" "\<bar>m\<bar> < 2 ^ 53" by blast
    have "(2::rat) powi (1 + (binexp x - 52)) = 2 powi 1 * 2 powi (binexp x - 52)"
      by (rule power_int_add) simp
    moreover have "1 + (binexp x - 52) = binexp x - 51" by simp
    ultimately have u2: "2 * u = 2 powi (binexp x - 51)" by (simp add: u_def)
    have "fl x = of_int n * u" using s(2) by (simp only: n_def)
    also have "\<dots> = of_int m * (2 * u)" by (simp add: m(1))
    finally have "fl x = of_int m * 2 powi (binexp x - 51)" by (simp only: u2)
    with m(2) show ?thesis unfolding representable_def by blast
  qed
qed

lemma fl_nearest:
  assumes "representable g"
  shows "\<bar>fl x - x\<bar> \<le> \<bar>g - x\<bar>"
proof (cases "x = 0")
  case True
  then show ?thesis by (simp add: fl_zero)
next
  case False
  define e where "e = binexp x"
  define u :: rat where "u = 2 powi (e - 52)"
  note s = fl_scaled [OF False, folded e_def, folded u_def]
  define t where "t = x / u"
  have x: "x = t * u" using s(1) by (simp add: t_def)
  have near: "\<bar>fl x - x\<bar> \<le> \<bar>of_int m * u - x\<bar>" for m
  proof -
    have "\<bar>of_int (round_half_even t) - t\<bar> * u \<le> \<bar>of_int m - t\<bar> * u"
      using s(1) by (intro mult_right_mono round_half_even_nearest) simp
    moreover have "\<bar>of_int k - t\<bar> * u = \<bar>of_int k * u - x\<bar>" for k
    proof -
      have "of_int k * u - x = (of_int k - t) * u" by (simp add: x algebra_simps)
      then show ?thesis using s(1) by (simp add: abs_mult)
    qed
    ultimately show ?thesis using s(2) by (simp add: t_def)
  qed
  from assms obtain n j where n: "\<bar>n\<bar> < 2 ^ 53" and g: "g = of_int n * 2 powi j"
    unfolding representable_def by blast
  show ?thesis
  proof (cases "e - 52 \<le> j")
    case True
    define m where "m = n * 2 ^ nat (j - (e - 52))"
    have "(2::rat) powi j = 2 powi (j - (e - 52)) * 2 powi (e - 52)"
      by (simp add: power_int_add [symmetric])
    also have "(2::rat) powi (j - (e - 52)) = 2 ^ nat (j - (e - 52))"
      using True by (simp add: power_int_nonneg_exp)
    finally have "g = of_int m * u" by (simp add: g m_def u_def)
    with near [of m] show ?thesis by simp
  next
    case False
    then have "j \<le> e - 53" by simp
    then have pj: "(2::rat) powi j \<le> 2 powi (e - 53)" by (intro power_int_increasing) simp_all
    have n': "(of_int \<bar>n\<bar> :: rat) \<le> 2 ^ 53"
    proof -
      have "(of_int \<bar>n\<bar> :: rat) < of_int (2 ^ 53)" using n by (simp only: of_int_less_iff)
      then show ?thesis by simp
    qed
    have "\<bar>g\<bar> = of_int \<bar>n\<bar> * 2 powi j" by (simp add: g abs_mult)
    also have "\<dots> \<le> 2 ^ 53 * 2 powi j" using n' by (rule mult_right_mono) simp
    also have "\<dots> \<le> 2 ^ 53 * 2 powi (e - 53)" using pj by (rule mult_left_mono) simp
    finally have "\<bar>g\<bar> \<le> 2 ^ 53 * 2 powi (e - 53)" .
    moreover have "(2::rat) ^ 53 * 2 powi (e - 53) = 2 powi e"
    proof -
      have "(2::rat) powi (53 + (e - 53)) = 2 powi 53 * 2 powi (e - 53)"
        by (rule power_int_add) simp
      moreover have "53 + (e - 53) = e" by simp
      ultimately show ?thesis by simp
    qed
    ultimately have gb: "\<bar>g\<bar> \<le> 2 powi e" by simp
    have pe: "2 powi e \<le> \<bar>x\<bar>" using s(3,4) by simp
    show ?thesis
    proof (cases "0 < x")
      case True
      have "\<bar>fl x - x\<bar> \<le> \<bar>of_int (2 ^ 52) * u - x\<bar>" by (rule near)
      also have "of_int (2 ^ 52) * u = 2 powi e" using s(3) by simp
      finally show ?thesis using gb pe True by linarith
    next
      case f: False
      have "\<bar>fl x - x\<bar> \<le> \<bar>of_int (- (2 ^ 52)) * u - x\<bar>" by (rule near)
      also have "of_int (- (2 ^ 52)) * u = - (2 powi e)" using s(3) by simp
      finally show ?thesis using gb pe f by linarith
    qed
  qed
qed

lemma fl_exact: "representable x \<Longrightarrow> fl x = x"
  using fl_nearest [of x x] by simp

lemma fl_ge: "representable g \<Longrightarrow> g \<le> x \<Longrightarrow> g \<le> fl x"
  using fl_nearest [of g x] by linarith

lemma fl_le: "representable g \<Longrightarrow> x \<le> g \<Longrightarrow> fl x \<le> g"
  using fl_nearest [of g x] by linarith

lemma fl_above_midpoint:
  assumes "representable g" "representable h" "g < h" "(g + h) / 2 < x"
  shows "g < fl x"
proof -
  have "g + h < 2 * x" using assms(4) by simp
  with fl_nearest [OF assms(1), of x] fl_nearest [OF assms(2), of x] assms(3)
  show ?thesis by linarith
qed

lemma representable_scaled: "\<bar>n\<bar> < 2 ^ 53 \<Longrightarrow> representable (of_int n / 2 ^ k)"
proof -
  assume n: "\<bar>n\<bar> < 2 ^ 53"
  have "(of_int n :: rat) / 2 ^ k = of_int n * 2 powi (- int k)"
    by (simp add: power_int_minus field_simps)
  with n show ?thesis unfolding representable_def by blast
qed

lemma representable_int: "\<bar>n\<bar> < 2 ^ 53 \<Longrightarrow> representable (of_int n)"
  using representable_scaled [of n 0] by simp

lemma fl_pos: "0 < x \<Longrightarrow> 0 < fl x"
proof -
  assume x: "0 < x"
  then have "x \<noteq> 0" by simp
  note b = binexp_bounds(1) [OF this]
  have "representable (of_int 1 * 2 powi (binexp x))" unfolding representable_def
    by (intro exI [of _ 1] exI [of _ "binexp x"]) simp
  then have "of_int 1 * 2 powi (binexp x) \<le> fl x" by (rule fl_ge) (use b x in simp)
  moreover have "(0::rat) < of_int 1 * 2 powi (binexp x)" by simp
  ultimately show ?thesis by linarith
qed

lemma fl_neg: "x < 0 \<Longrightarrow> fl x < 0"
proof -
  assume x: "x < 0"
  then have "x \<noteq> 0" by simp
  note b = binexp_bounds(1) [OF this]
  have "representable (of_int (- 1) * 2 powi (binexp x))" unfolding representable_def
    by (intro exI [of _ "- 1"] exI [of _ "binexp x"]) simp
  then have "fl x \<le> of_int (- 1) * 2 powi (binexp x)" by (rule fl_le) (use b x in simp)
  moreover have "of_int (- 1) * 2 powi (binexp x) < (0::rat)" by simp
  ultimately show ?thesis by linarith
qed

lemma representable_grid:
  assumes "representable y" "2 ^ 33 \<le> \<bar>y\<bar>"
  shows "\<exists>z::int. y = of_int z / 2 ^ 19"
proof -
  from assms(1) obtain n j where n: "\<bar>n\<bar> < 2 ^ 53" and y: "y = of_int n * 2 powi j"
    unfolding representable_def by blast
  have n': "(of_int \<bar>n\<bar> :: rat) < 2 ^ 53"
  proof -
    have "(of_int \<bar>n\<bar> :: rat) < of_int (2 ^ 53)" using n by (simp only: of_int_less_iff)
    then show ?thesis by simp
  qed
  have "\<bar>y\<bar> = of_int \<bar>n\<bar> * 2 powi j" by (simp add: y abs_mult)
  also have "\<dots> \<le> 2 ^ 53 * 2 powi j" using n' by (intro mult_right_mono) simp_all
  finally have "(2::rat) ^ 33 \<le> 2 ^ 53 * 2 powi j" using assms(2) by simp
  have j: "- 20 \<le> j"
  proof (rule ccontr)
    assume "\<not> - 20 \<le> j"
    then have "j \<le> - 21" by simp
    then have "(2::rat) powi j \<le> 2 powi (- 21)" by (intro power_int_increasing) simp_all
    then have "(2::rat) ^ 53 * 2 powi j \<le> 2 ^ 53 * 2 powi (- 21)" by (intro mult_left_mono) simp_all
    also have "\<dots> = 2 ^ 32" by (simp add: power_int_minus)
    finally show False using \<open>(2::rat) ^ 33 \<le> 2 ^ 53 * 2 powi j\<close> by simp
  qed
  show ?thesis
  proof (cases "j = - 20")
    case True
    have "\<bar>y\<bar> = of_int \<bar>n\<bar> / 2 ^ 20" by (simp add: y abs_mult True power_int_minus field_simps)
    with assms(2) n' have False by (simp add: field_simps)
    then show ?thesis ..
  next
    case False
    with j have j19: "0 \<le> j + 19" by simp
    have "(2::rat) powi j = 2 powi (j + 19) * 2 powi (- 19)"
      using power_int_add [of "2::rat" "j + 19" "- 19"] by simp
    also have "(2::rat) powi (j + 19) = 2 ^ nat (j + 19)"
      using j19 by (simp add: power_int_nonneg_exp)
    finally have "y = of_int (n * 2 ^ nat (j + 19)) / 2 ^ 19"
      by (simp add: y power_int_minus field_simps)
    then show ?thesis by blast
  qed
qed

subsection \<open>The float ceiling of line 178\<close>

lemma total_seconds_pos: "(0 < total_seconds us) = (0 < us)"
proof (cases "0 < us")
  case True
  then have "0 < (of_int us / 1000000 :: rat)" by simp
  then show ?thesis using True unfolding total_seconds_def by (simp only: fl_pos)
next
  case False
  show ?thesis
  proof (cases "us = 0")
    case True
    then show ?thesis by (simp add: total_seconds_def fl_zero)
  next
    case f: False
    with False have "(of_int us / 1000000 :: rat) < 0" by simp
    then have "fl (of_int us / 1000000) < 0" by (rule fl_neg)
    with False show ?thesis by (simp add: total_seconds_def)
  qed
qed

lemma total_seconds_neg: "(total_seconds us < 0) = (us < 0)"
proof (cases "us < 0")
  case True
  then have "(of_int us / 1000000 :: rat) < 0" by simp
  then show ?thesis using True unfolding total_seconds_def by (simp only: fl_neg)
next
  case False
  show ?thesis
  proof (cases "us = 0")
    case True
    then show ?thesis by (simp add: total_seconds_def fl_zero)
  next
    case f: False
    with False have "0 < (of_int us / 1000000 :: rat)" by simp
    then have "0 < fl (of_int us / 1000000)" by (rule fl_pos)
    with False show ?thesis by (simp add: total_seconds_def)
  qed
qed

lemma fl_above_int:
  assumes "\<bar>k\<bar> * 2 ^ p + 1 < 2 ^ 53" "of_int k + 1 / 2 ^ (p + 1) < q"
  shows "of_int k < fl q"
proof -
  have k: "\<bar>k\<bar> < 2 ^ 53"
  proof -
    have "\<bar>k\<bar> * 1 \<le> \<bar>k\<bar> * 2 ^ p" by (intro mult_left_mono) simp_all
    with assms(1) show ?thesis by simp
  qed
  have "\<bar>k * 2 ^ p + 1\<bar> \<le> \<bar>k * 2 ^ p\<bar> + \<bar>1\<bar>" by (rule abs_triangle_ineq)
  also have "\<bar>k * 2 ^ p\<bar> = \<bar>k\<bar> * 2 ^ p" by (simp add: abs_mult)
  finally have h: "\<bar>k * 2 ^ p + 1\<bar> < 2 ^ 53" using assms(1) by simp
  let ?g = "of_int k :: rat" and ?h = "of_int (k * 2 ^ p + 1) / 2 ^ p :: rat"
  have he: "?h = of_int k + 1 / 2 ^ p" by (simp add: field_simps)
  have "representable ?g" using k by (rule representable_int)
  moreover have "representable ?h" using h by (rule representable_scaled)
  moreover have "?g < ?h" unfolding he by simp
  moreover have "(?g + ?h) / 2 < q"
  proof -
    have "(of_int k + (of_int k + 1 / 2 ^ p)) / 2 = (of_int k :: rat) + 1 / 2 ^ (p + 1)"
      by (simp add: field_simps)
    with assms(2) show ?thesis unfolding he by simp
  qed
  ultimately show ?thesis by (rule fl_above_midpoint)
qed

lemma fl_ge_grid:
  assumes "\<bar>k\<bar> * 2 ^ p + 1 < 2 ^ 53" "of_int k + 1 / 2 ^ p \<le> x"
  shows "of_int k + 1 / 2 ^ p \<le> fl x"
proof -
  have "\<bar>k * 2 ^ p + 1\<bar> \<le> \<bar>k * 2 ^ p\<bar> + \<bar>1\<bar>" by (rule abs_triangle_ineq)
  also have "\<bar>k * 2 ^ p\<bar> = \<bar>k\<bar> * 2 ^ p" by (simp add: abs_mult)
  finally have h: "\<bar>k * 2 ^ p + 1\<bar> < 2 ^ 53" using assms(1) by simp
  let ?h = "of_int (k * 2 ^ p + 1) / 2 ^ p :: rat"
  have he: "?h = of_int k + 1 / 2 ^ p" by (simp add: field_simps)
  have "representable ?h" using h by (rule representable_scaled)
  then have "?h \<le> fl x" by (rule fl_ge) (use assms(2) in \<open>simp only: he\<close>)
  then show ?thesis by (simp only: he)
qed

lemma ceil_days_le:
  assumes "us \<le> k * 86400000000" "\<bar>k\<bar> \<le> 4000000"
  shows "ceil_days us \<le> k"
proof -
  have r1: "representable (of_int (86400 * k))" by (rule representable_int) (use assms(2) in simp)
  have r2: "representable (of_int k)" by (rule representable_int) (use assms(2) in simp)
  have "(of_int us :: rat) \<le> of_int (k * 86400000000)" using assms(1) by (simp only: of_int_le_iff)
  then have "(of_int us / 1000000 :: rat) \<le> of_int (86400 * k)" by (simp add: field_simps)
  with r1 have "total_seconds us \<le> of_int (86400 * k)"
    unfolding total_seconds_def by (rule fl_le)
  then have "total_seconds us / 86400 \<le> of_int k" by (simp add: field_simps)
  with r2 have "fl (total_seconds us / 86400) \<le> of_int k" by (rule fl_le)
  then show ?thesis unfolding ceil_days_def by (simp add: ceiling_le_iff)
qed

lemma ceil_days_above:
  assumes k: "\<bar>k\<bar> \<le> 198841" and s: "of_int (86400 * k) + 1 / 1000000 \<le> (s::rat)"
  shows "of_int k < fl (fl s / 86400)"
proof -
  define A where "A = 86400 * k"
  have Ab: "\<bar>A\<bar> \<le> 17179862400" using k by (simp add: A_def abs_mult)
  have s': "of_int A + 1 / 1000000 \<le> s" using s by (simp only: A_def)
  show ?thesis
  proof (cases "\<bar>A\<bar> < 8589934592")
    case True
    have "of_int A + 1 / 2 ^ 20 \<le> fl s"
    proof (rule fl_ge_grid)
      show "\<bar>A\<bar> * 2 ^ 20 + 1 < 2 ^ 53" using True by simp
      show "of_int A + 1 / 2 ^ 20 \<le> s" using s' by simp
    qed
    then have "of_int A + 1 / 1048576 \<le> fl s" by simp
    then have q: "of_int k + 1 / (1048576 * 86400) \<le> fl s / 86400"
      by (simp add: A_def field_simps)
    have kb: "\<bar>k\<bar> \<le> 99420" using True by (simp add: A_def abs_mult)
    show ?thesis
    proof (rule fl_above_int [where p = 36])
      show "\<bar>k\<bar> * 2 ^ 36 + 1 < 2 ^ 53" using kb by simp
      have "(1::rat) / 2 ^ (36 + 1) < 1 / (1048576 * 86400)" by simp
      with q show "of_int k + 1 / 2 ^ (36 + 1) < fl s / 86400" by linarith
    qed
  next
    case False
    have gt: "of_int A < fl s"
    proof (rule fl_above_int [where p = 19])
      show "\<bar>A\<bar> * 2 ^ 19 + 1 < 2 ^ 53" using Ab by simp
      have "(1::rat) / 2 ^ (19 + 1) < 1 / 1000000" by simp
      with s' show "of_int A + 1 / 2 ^ (19 + 1) < s" by linarith
    qed
    have rep: "representable (fl s)" by (rule fl_representable)
    have "of_int A + 1 / 2 ^ 19 \<le> fl s"
    proof (cases "2 ^ 33 \<le> \<bar>fl s\<bar>")
      case True
      from representable_grid [OF rep True] obtain z :: int where z: "fl s = of_int z / 2 ^ 19"
        by blast
      from gt have "(of_int (A * 2 ^ 19) :: rat) < of_int z" by (simp add: z field_simps)
      then have "A * 2 ^ 19 < z" by (simp only: of_int_less_iff)
      then have "A * 2 ^ 19 + 1 \<le> z" by simp
      then have "(of_int (A * 2 ^ 19 + 1) :: rat) \<le> of_int z" by (simp only: of_int_le_iff)
      then show ?thesis by (simp add: z field_simps)
    next
      case small: False
      then have y: "- 8589934592 < fl s" "fl s < 8589934592" by (simp_all add: abs_less_iff)
      have "\<not> 8589934592 \<le> A"
      proof
        assume "8589934592 \<le> A"
        then have "(8589934592::rat) \<le> of_int A" by (metis of_int_le_iff of_int_numeral)
        with gt y(2) show False by linarith
      qed
      with False have "A \<le> - 8589934592" by simp
      moreover have "A \<noteq> - 8589934592"
      proof
        assume "A = - 8589934592"
        then have "(86400 * k) mod 86400 = (- 8589934592 :: int) mod 86400"
          by (simp only: A_def)
        moreover have "(86400 * k) mod 86400 = 0" by (rule mod_mult_self1_is_0)
        moreover have "(- 8589934592 :: int) mod 86400 \<noteq> 0" by simp
        ultimately show False by (simp only:)
      qed
      ultimately have "A \<le> - 8589934593" by simp
      then have "(of_int A :: rat) \<le> - 8589934593" by (metis of_int_le_iff of_int_neg_numeral)
      with y(1) show ?thesis by simp
    qed
    then have "of_int A + 1 / 524288 \<le> fl s" by simp
    then have q: "of_int k + 1 / (524288 * 86400) \<le> fl s / 86400"
      by (simp add: A_def field_simps)
    show ?thesis
    proof (rule fl_above_int [where p = 35])
      show "\<bar>k\<bar> * 2 ^ 35 + 1 < 2 ^ 53" using k by simp
      have "(1::rat) / 2 ^ (35 + 1) < 1 / (524288 * 86400)" by simp
      with q show "of_int k + 1 / 2 ^ (35 + 1) < fl s / 86400" by linarith
    qed
  qed
qed

text \<open>Up to 198841 days in either direction the float ceiling is the exact ceiling.\<close>

lemma ceil_days_exact:
  assumes "\<bar>us\<bar> \<le> 198841 * 86400000000"
  shows "ceil_days us = \<lceil>(of_int us / 86400000000 :: rat)\<rceil>"
proof -
  define k where "k = us div 86400000000"
  define r where "r = us mod 86400000000"
  have us: "us = 86400000000 * k + r" by (simp add: k_def r_def)
  have r: "0 \<le> r" "r < 86400000000" by (simp_all add: r_def)
  have kb: "- 198841 \<le> k" "k \<le> 198841" using assms us r by linarith+
  have usr: "(of_int us :: rat) = 86400000000 * of_int k + of_int r" by (simp add: us)
  show ?thesis
  proof (cases "r = 0")
    case True
    have e: "(of_int us / 86400000000 :: rat) = of_int k" by (simp add: usr True)
    have s: "(of_int us / 1000000 :: rat) = of_int (86400 * k)" by (simp add: usr True)
    have "representable (of_int (86400 * k))" by (rule representable_int) (use kb in simp)
    then have "total_seconds us = of_int (86400 * k)"
      unfolding total_seconds_def s by (rule fl_exact)
    then have "total_seconds us / 86400 = of_int k" by simp
    moreover have "representable (of_int k)" by (rule representable_int) (use kb in simp)
    ultimately have "fl (total_seconds us / 86400) = of_int k" by (simp add: fl_exact)
    then show ?thesis by (simp add: ceil_days_def e)
  next
    case False
    with r have r1: "1 \<le> r" by simp
    have "(1::rat) \<le> of_int r" using r1 by simp
    have rr: "(of_int r :: rat) < 86400000000" using r(2) by (metis of_int_less_iff of_int_numeral)
    have e: "\<lceil>(of_int us / 86400000000 :: rat)\<rceil> = k + 1"
    proof (rule ceiling_unique)
      show "of_int (k + 1) - 1 < (of_int us / 86400000000 :: rat)"
        using \<open>(1::rat) \<le> of_int r\<close> by (simp add: usr field_simps)
      show "(of_int us / 86400000000 :: rat) \<le> of_int (k + 1)"
        using rr by (simp add: usr field_simps)
    qed
    have up: "ceil_days us \<le> k + 1"
      by (rule ceil_days_le) (use us r kb in simp_all)
    have "of_int (86400 * k) + 1 / 1000000 \<le> (of_int us / 1000000 :: rat)"
      using \<open>(1::rat) \<le> of_int r\<close> by (simp add: usr field_simps)
    then have "of_int k < fl (fl (of_int us / 1000000) / 86400)"
      by (intro ceil_days_above) (use kb in simp_all)
    then have "k < ceil_days us"
      by (simp add: ceil_days_def total_seconds_def less_ceiling_iff)
    with up show ?thesis by (simp add: e)
  qed
qed

subsection \<open>The float floor of \<open>UniversityWeek\<close>\<close>

text \<open>
  The float quotient of a number of days by 7 has the floor of the integer quotient: the
  rounding cannot cross a whole number, which is at least a seventh away or is the
  quotient itself.
\<close>

lemma floor_fl_div7:
  assumes "\<bar>d\<bar> \<le> 4000000"
  shows "\<lfloor>fl (of_int d / 7)\<rfloor> = d div 7"
proof -
  define q where "q = d div 7"
  define r where "r = d mod 7"
  have d: "d = 7 * q + r" and r: "0 \<le> r" "r \<le> 6" by (simp_all add: q_def r_def)
  have q: "\<bar>q\<bar> \<le> 4000000" using assms d r by linarith
  have x: "(of_int d / 7 :: rat) = of_int q + of_int r / 7" by (simp add: d)
  have r1: "representable (of_int q)" by (rule representable_int) (use q in simp)
  have e: "(of_int (8 * q + 7) / 2 ^ 3 :: rat) = of_int q + 7 / 8" by simp
  have "representable (of_int (8 * q + 7) / 2 ^ 3)"
    by (rule representable_scaled) (use q in simp)
  then have r2: "representable (of_int q + 7 / 8)" by (simp only: e)
  have "(of_int r :: rat) \<le> 6" using r(2) by (simp only: of_int_le_iff [of r 6, symmetric] of_int_numeral)
  then have u: "(of_int d / 7 :: rat) \<le> of_int q + 7 / 8" unfolding x by simp
  have "(0 :: rat) \<le> of_int r" using r(1) by simp
  then have l: "(of_int q :: rat) \<le> of_int d / 7" unfolding x by simp
  have "of_int q \<le> fl (of_int d / 7)" by (rule fl_ge [OF r1 l])
  moreover have "fl (of_int d / 7) \<le> of_int q + 7 / 8" by (rule fl_le [OF r2 u])
  ultimately have "\<lfloor>fl (of_int d / 7)\<rfloor> = q" by (simp add: floor_unique)
  then show ?thesis by (simp add: q_def)
qed

section \<open>Properties of the working-day counter\<close>

lemma dt_add_days_date:
  "dt_add_days dl i = Inr t \<Longrightarrow> dt_date t = day_after dl i \<and> dt_time t = dt_time dl"
  by (auto simp: dt_add_days_def day_after_def Let_def split: if_splits)

lemma dt_add_days_ok:
  assumes "0 < toordinal (dt_date dl) + i" "toordinal (dt_date dl) + i \<le> MAXORDINAL"
  shows "dt_add_days dl i = Inr (dl\<lparr>dt_date := day_after dl i\<rparr>)"
  using assms by (simp add: dt_add_days_def Let_def day_after_def)

lemma weekday_day_after:
  assumes "0 < toordinal (dt_date dl) + i" "toordinal (dt_date dl) + i \<le> MAXORDINAL"
  shows "weekday (day_after dl i) = (weekday (dt_date dl) + i) mod 7"
proof -
  have "toordinal (day_after dl i) = toordinal (dt_date dl) + i"
    unfolding day_after_def by (rule fromordinal_valid(2)) (use assms in simp_all)
  then show ?thesis by (rule weekday_shift)
qed

subsection \<open>The closed days\<close>

lemma closed_days_of_valid:
  assumes "list_all (\<lambda>(y, m, d). valid_ymd y m d) r"
  shows "closed_days_of r = Inr (map midnight r)"
  using assms
  by (induction r) (auto simp: datetime_new_def date_new_def bind_err_def midnight_def)

lemma closed_days_of_Inr:
  assumes "closed_days_of r = Inr cs"
  shows "cs = map midnight r"
  using assms
proof (induction r arbitrary: cs)
  case Nil
  then show ?case by simp
next
  case (Cons t r)
  obtain y m d where t: "t = (y, m, d)" by (cases t) auto
  from Cons.prems obtain cs' where cs': "closed_days_of r = Inr cs'"
    by (auto simp: t bind_err_def datetime_new_def date_new_def split: if_splits sum.splits)
  with Cons.prems Cons.IH [OF cs'] show ?case
    by (auto simp: t bind_err_def datetime_new_def date_new_def midnight_def split: if_splits)
qed

lemma closed_dates_of_midnight: "map dt_date (map midnight r) = closed_dates_of r"
  by (simp add: closed_dates_of_def)

subsection \<open>The two counting loops\<close>

lemma remove_weekends_Inr:
  "remove_weekends dl js acc = Inr e \<Longrightarrow>
     e = acc - int (length (filter (\<lambda>i. weekday (day_after dl i) > 4) js))"
proof (induction js arbitrary: acc)
  case Nil
  then show ?case by simp
next
  case (Cons j js)
  from Cons.prems obtain t where t: "dt_add_days dl j = Inr t"
    by (auto split: sum.splits)
  note d = dt_add_days_date [OF t]
  from Cons.prems t have
    "remove_weekends dl js (if weekday (day_after dl j) > 4 then acc - 1 else acc) = Inr e"
    by (simp add: d)
  from Cons.IH [OF this] show ?case by simp
qed

lemma remove_weekends_ok:
  assumes "\<forall>i\<in>set js. 0 < toordinal (dt_date dl) + i \<and> toordinal (dt_date dl) + i \<le> MAXORDINAL"
  shows "\<exists>e. remove_weekends dl js acc = Inr e"
  using assms
proof (induction js arbitrary: acc)
  case Nil
  then show ?case by simp
next
  case (Cons j js)
  then have "dt_add_days dl j = Inr (dl\<lparr>dt_date := day_after dl j\<rparr>)"
    by (intro dt_add_days_ok) simp_all
  with Cons show ?case by simp
qed

lemma dt_diff_timeline: "dt_diff a b = timeline a - timeline b"
  by (simp add: dt_diff_def timeline_def algebra_simps)

lemma remove_closed_eq:
  "remove_closed today dl cs acc = acc - closed_count today dl cs"
proof -
  have c: "(0 < total_seconds (dt_diff today c) \<and> total_seconds (dt_diff dl c) < 0)
      = (timeline dl < timeline c \<and> timeline c < timeline today)" for c
    by (auto simp: total_seconds_pos total_seconds_neg dt_diff_timeline)
  show ?thesis by (induction cs arbitrary: acc) (simp_all add: closed_count_def c)
qed

text \<open>The first loop stays within the calendar unless today is its very last day.\<close>

lemma first_pass_ok:
  assumes "valid_datetime today" "valid_datetime dl" "toordinal (dt_date today) < MAXORDINAL"
  shows "\<exists>e. remove_weekends dl [1 .. ceil_days (dt_diff today dl)] acc = Inr e"
proof (rule remove_weekends_ok, rule ballI)
  fix i assume "i \<in> set [1 .. ceil_days (dt_diff today dl)]"
  then have i: "1 \<le> i" "i \<le> ceil_days (dt_diff today dl)" by simp_all
  have t: "dt_time today < 86400000000" "0 \<le> dt_time dl"
    using assms(1,2) by (simp_all add: valid_datetime_def)
  have ot: "1 \<le> toordinal (dt_date today)" "toordinal (dt_date today) \<le> 3652059"
    using assms(1) toordinal_range [of "dt_date today"]
    by (simp_all add: valid_datetime_def MAXORDINAL_def)
  have od: "1 \<le> toordinal (dt_date dl)" "toordinal (dt_date dl) \<le> 3652059"
    using assms(2) toordinal_range [of "dt_date dl"]
    by (simp_all add: valid_datetime_def MAXORDINAL_def)
  have "dt_diff today dl
      \<le> (toordinal (dt_date today) - toordinal (dt_date dl) + 1) * 86400000000"
    using t by (simp add: dt_diff_def algebra_simps)
  then have "ceil_days (dt_diff today dl) \<le> toordinal (dt_date today) - toordinal (dt_date dl) + 1"
    by (rule ceil_days_le) (use ot od in simp)
  then show "0 < toordinal (dt_date dl) + i \<and> toordinal (dt_date dl) + i \<le> MAXORDINAL"
    using i od assms(3) by simp
qed

subsection \<open>The scan for the marking deadline\<close>

lemma working_count_rec:
  "n \<le> k \<Longrightarrow> working_count cl dl n k
     = (if working_day cl (day_after dl n) then 1 else 0) + working_count cl dl (n + 1) k"
  by (simp add: working_count_def upto_rec1)

lemma working_count_empty: "k < n \<Longrightarrow> working_count cl dl n k = 0"
  by (simp add: working_count_def)

lemma working_count_nonneg: "0 \<le> working_count cl dl n k"
  by (simp add: working_count_def)

lemma working_count_pos:
  assumes "working_day cl (day_after dl k)" "n \<le> k"
  shows "1 \<le> working_count cl dl n k"
proof -
  have "k \<in> set (filter (\<lambda>i. working_day cl (day_after dl i)) [n .. k])"
    using assms by simp
  then have "0 < length (filter (\<lambda>i. working_day cl (day_after dl i)) [n .. k])"
    by (rule length_pos_if_in_set)
  then show ?thesis unfolding working_count_def by linarith
qed

lemma scan_stop: "\<not> w < D \<Longrightarrow> scan_working_days D cl dl w n = Inr n"
  by (subst scan_working_days.simps) simp

lemma scan_step:
  assumes "w < D" "0 < toordinal (dt_date dl) + n" "toordinal (dt_date dl) + n \<le> MAXORDINAL"
  shows "scan_working_days D cl dl w n =
     (if n + 1 > 1000 then Inl SystemExit
      else scan_working_days D cl dl
             (if working_day cl (day_after dl n) then w + 1 else w) (n + 1))"
  by (subst scan_working_days.simps)
     (simp add: assms(1) dt_add_days_ok [OF assms(2,3)] Let_def working_day_def)

lemma scan_Inr:
  assumes "scan_working_days D cl dl w n = Inr r" "w < D"
  shows "n < r \<and> r \<le> max n 1000 \<and> working_day cl (day_after dl (r - 1))
           \<and> w + working_count cl dl n (r - 1) = D"
  using assms
proof (induction D cl dl w n arbitrary: r rule: scan_working_days.induct)
  case (1 D cl dl w n)
  from "1.prems" obtain t where t: "dt_add_days dl n = Inr t"
    by (subst (asm) scan_working_days.simps) (auto split: sum.splits)
  note d = dt_add_days_date [OF t]
  define w' where "w' = (if working_day cl (day_after dl n) then w + 1 else w)"
  have w'eq: "w' = (if weekday (dt_date t) < 5 \<and> dt_date t \<notin> set cl then w + 1 else w)"
    by (simp add: w'_def working_day_def d)
  have "scan_working_days D cl dl w n =
      (if n + 1 > 1000 then Inl SystemExit else scan_working_days D cl dl w' (n + 1))"
    by (subst scan_working_days.simps) (simp add: "1.prems"(2) t Let_def w'eq)
  with "1.prems"(1) have n: "\<not> n + 1 > 1000"
    and rec: "scan_working_days D cl dl w' (n + 1) = Inr r"
    by (auto split: if_splits)
  show ?case
  proof (cases "w' < D")
    case True
    have "n + 1 < r \<and> r \<le> max (n + 1) 1000 \<and> working_day cl (day_after dl (r - 1))
           \<and> w' + working_count cl dl (n + 1) (r - 1) = D"
      by (rule "1.IH" [OF "1.prems"(2) t w'eq refl n rec True])
    moreover from this have "n \<le> r - 1" by simp
    moreover note working_count_rec [OF this, of cl dl]
    ultimately show ?thesis using n by (auto simp: w'_def split: if_splits)
  next
    case False
    then have r: "r = n + 1" using rec by (simp add: scan_stop)
    from False "1.prems"(2) have "working_day cl (day_after dl n)" "w + 1 = D"
      by (auto simp: w'_def split: if_splits)
    then show ?thesis
      using n working_count_rec [of n n cl dl] by (simp add: r working_count_empty)
  qed
qed

lemma scan_complete:
  assumes "w < D" "n \<le> k" "k < 1000" "0 < toordinal (dt_date dl) + n"
    "toordinal (dt_date dl) + k \<le> MAXORDINAL"
    "working_day cl (day_after dl k)" "w + working_count cl dl n k = D"
  shows "scan_working_days D cl dl w n = Inr (k + 1)"
  using assms
proof (induction "nat (k - n)" arbitrary: n w)
  case 0
  then have nk: "n = k" by simp
  with 0 working_count_rec [of k k cl dl] have "w + 1 = D"
    by (simp add: working_count_empty)
  with 0 nk show ?case by (simp add: scan_step scan_stop)
next
  case (Suc j)
  then have nk: "n < k" by simp
  define w' where "w' = (if working_day cl (day_after dl n) then w + 1 else w)"
  have sum: "w' + working_count cl dl (n + 1) k = D"
    using Suc.prems(7) nk working_count_rec [of n k cl dl] by (auto simp: w'_def split: if_splits)
  have "1 \<le> working_count cl dl (n + 1) k"
    by (rule working_count_pos) (use Suc.prems nk in simp_all)
  with sum have w': "w' < D" by simp
  have "scan_working_days D cl dl w' (n + 1) = Inr (k + 1)"
    by (rule Suc.hyps(1)) (use Suc.hyps(2) Suc.prems nk w' sum in simp_all)
  moreover have "scan_working_days D cl dl w n = scan_working_days D cl dl w' (n + 1)"
    using Suc.prems nk by (subst scan_step) (simp_all add: w'_def)
  ultimately show ?case by simp
qed

lemma scan_exit:
  assumes "n \<le> 1000" "0 < toordinal (dt_date dl) + n"
    "toordinal (dt_date dl) + 1000 \<le> MAXORDINAL"
    "w + working_count cl dl n 1000 < D"
  shows "scan_working_days D cl dl w n = Inl SystemExit"
  using assms
proof (induction "nat (1000 - n)" arbitrary: n w)
  case 0
  then have n: "n = 1000" by simp
  from 0 working_count_nonneg [of cl dl n 1000] have "w < D" by simp
  with 0 n show ?case by (simp add: scan_step)
next
  case (Suc j)
  then have n: "n < 1000" by simp
  from Suc.prems working_count_nonneg [of cl dl n 1000] have w: "w < D" by simp
  define w' where "w' = (if working_day cl (day_after dl n) then w + 1 else w)"
  have sum: "w' + working_count cl dl (n + 1) 1000 < D"
    using Suc.prems(4) n working_count_rec [of n 1000 cl dl] by (auto simp: w'_def split: if_splits)
  have "scan_working_days D cl dl w' (n + 1) = Inl SystemExit"
    by (rule Suc.hyps(1)) (use Suc.hyps(2) Suc.prems n sum in simp_all)
  moreover have "scan_working_days D cl dl w n = scan_working_days D cl dl w' (n + 1)"
    using Suc.prems n w by (subst scan_step) (simp_all add: w'_def)
  ultimately show ?case by simp
qed

subsection \<open>The whole function\<close>

lemma days_since_deadline_at_Inr:
  assumes "days_since_deadline_at D r today dl = Inr (e, m, w)"
  shows "\<exists>e0 n. remove_weekends dl [1 .. ceil_days (dt_diff today dl)]
                  (ceil_days (dt_diff today dl)) = Inr e0
           \<and> e = remove_closed today dl (map midnight r) e0 - 1
           \<and> scan_working_days D (closed_dates_of r) dl 0 1 = Inr n
           \<and> dt_add_days dl (n - 1) = Inr m
           \<and> w = (weekday (dt_date today) < 5 \<and> dt_date today \<notin> set (closed_dates_of r))"
proof -
  from assms obtain cs where cs: "closed_days_of r = Inr cs"
    by (auto simp: days_since_deadline_at_def bind_err_def split: sum.splits)
  note c = closed_days_of_Inr [OF cs]
  have cd: "map dt_date cs = closed_dates_of r" by (simp add: c closed_dates_of_def)
  from assms show ?thesis
    by (auto simp: days_since_deadline_at_def bind_err_def cs Let_def cd c [symmetric]
          split: sum.splits)
qed

lemma days_since_deadline_at_unfold:
  assumes "list_all (\<lambda>(y, m, d). valid_ymd y m d) r"
    and "remove_weekends dl [1 .. ceil_days (dt_diff today dl)]
           (ceil_days (dt_diff today dl)) = Inr e0"
  shows "days_since_deadline_at D r today dl =
     bind_err (scan_working_days D (closed_dates_of r) dl 0 1) (\<lambda>n.
       bind_err (dt_add_days dl (n - 1)) (\<lambda>m.
         Inr (remove_closed today dl (map midnight r) e0 - 1, m,
              weekday (dt_date today) < 5 \<and> dt_date today \<notin> set (closed_dates_of r))))"
  unfolding days_since_deadline_at_def closed_days_of_valid [OF assms(1)] bind_err_def Let_def
    sum.case assms(2) closed_dates_of_midnight
  by (rule refl)

lemma all_closed_blocks:
  assumes "valid_datetime dl" "toordinal (dt_date dl) + 1000 \<le> MAXORDINAL"
  shows "list_all (\<lambda>(y, m, d). valid_ymd y m d) (all_closed dl)"
    and "working_count (closed_dates_of (all_closed dl)) dl 1 1000 = 0"
proof -
  have o: "1 \<le> toordinal (dt_date dl)"
    using assms(1) by (simp add: valid_datetime_def toordinal_range)
  have v: "valid_date (day_after dl i)" if "1 \<le> i" "i \<le> 1000" for i
    unfolding day_after_def by (rule fromordinal_valid(1)) (use that o assms(2) in simp_all)
  show "list_all (\<lambda>(y, m, d). valid_ymd y m d) (all_closed dl)"
    using v by (auto simp: all_closed_def list_all_iff Let_def valid_date_def)
  have "closed_dates_of (all_closed dl) = map (day_after dl) [1 .. 1000]"
    by (simp add: closed_dates_of_def all_closed_def midnight_def Let_def)
  then have "filter (\<lambda>i. working_day (closed_dates_of (all_closed dl)) (day_after dl i)) [1 .. 1000] = []"
    by (simp add: filter_empty_conv working_day_def)
  then show "working_count (closed_dates_of (all_closed dl)) dl 1 1000 = 0"
    by (simp add: working_count_def)
qed

lemma fifteen_weekdays:
  "\<forall>wd\<in>{0..6}. int (length (filter (\<lambda>i. (wd + i) mod 7 < 5) [1 .. marking_offset wd])) = 15
      \<and> (wd + marking_offset wd) mod 7 < 5 \<and> 19 \<le> marking_offset wd \<and> marking_offset wd \<le> 21"
  by code_simp

section \<open>The claims about the week functions\<close>

text \<open>
  Claim C2 (as amended). \<open>TermWeek\<close> reads the term off the university week \<open>u\<close> of the
  date: weeks 5 to 16 are term 1, weeks 21 to 31 term 2, weeks 36 to 43 term 3, and every
  other week is term 0 with term week 0. The term week is \<open>u - 5\<close> in term 1 (so week 5 is
  term week 0 and week 16 is term week 11), \<open>u - 20\<close> in term 2 and \<open>u - 35\<close> in term 3.
  Weeks 4 and 17 fall in the last branch.
\<close>

theorem TermWeek_table:
  assumes "UniversityWeek d = Inr u"
  shows "TermWeek d =
           Inr (if 5 \<le> u \<and> u \<le> 16 then [1, u - 5, u]
                else if 21 \<le> u \<and> u \<le> 31 then [2, u - 20, u]
                else if 36 \<le> u \<and> u \<le> 43 then [3, u - 35, u]
                else [0, 0, u])"
  using assms by (simp add: TermWeek_def bind_err_def)

theorem TermWeek_table_witness:
  "UniversityWeek \<lparr>year = 2022, month = 12, day = 9\<rparr> = Inr 16
   \<and> TermWeek \<lparr>year = 2022, month = 12, day = 9\<rparr> = Inr [1, 11, 16]"
proof -
  have u: "UniversityWeek \<lparr>year = 2022, month = 12, day = 9\<rparr> = Inr 16" by code_simp
  from TermWeek_table [OF u] u show ?thesis by simp
qed

theorem TermWeek_week5_counterexample:
  "UniversityWeek \<lparr>year = 2022, month = 9, day = 19\<rparr> = Inr 5
   \<and> TermWeek \<lparr>year = 2022, month = 9, day = 19\<rparr> = Inr [1, 0, 5]
   \<and> TermWeek \<lparr>year = 2022, month = 9, day = 19\<rparr> \<noteq> Inr [1, 1, 5]"
  by code_simp

text \<open>
  Claim C7. For every valid date \<open>d\<close>, \<open>AcademicYear d\<close> is the year of \<open>d\<close> when \<open>d\<close> is on
  or after \<open>WeekOne\<close> of that year, and the year before otherwise. \<open>WeekOne\<close> of the year
  itself belongs to that academic year and has university week 1; the day before it is a
  Sunday and belongs to the academic year before.
\<close>

theorem AcademicYear_boundary:
  assumes "valid_date d"
  shows "\<exists>w sunday. WeekOne (year d) = Inr w
           \<and> AcademicYear d = Inr (if date_le w d then year d else year d - 1)
           \<and> AcademicYear w = Inr (year d) \<and> UniversityWeek w = Inr 1
           \<and> date_add_days w (- 1) = Inr sunday \<and> weekday sunday = 6
           \<and> AcademicYear sunday = Inr (year d - 1)"
proof -
  note yr = valid_date_year [OF assms]
  from yr WeekOne_monday [of "year d"]
  obtain w where w: "WeekOne (year d) = Inr w" "valid_date w" "year w = year d" "month w = 8"
      "21 \<le> day w" "day w \<le> 27" "weekday w = 0"
    by blast
  have a: "AcademicYear d = Inr (if date_le w d then year d else year d - 1)"
    using w(1) by (simp add: AcademicYear_def bind_err_def)
  have ww: "date_le w w" by (simp add: date_le_def)
  have aw: "AcademicYear w = Inr (year d)"
    using w(1,3) ww by (simp add: AcademicYear_def bind_err_def)
  have uw: "UniversityWeek w = Inr 1"
    using w(1,3) ww by (simp add: UniversityWeek_def bind_err_def date_diff_days_def)
  define s where "s = \<lparr>year = year d, month = 8, day = day w - 1\<rparr>"
  have vs: "valid_date s" unfolding s_def by (rule valid_august) (use yr w in simp_all)
  have ts: "toordinal s = toordinal w + (- 1)"
    using w(3,4) by (simp add: s_def toordinal_def ymd2ord_def)
  have add: "date_add_days w (- 1) = Inr s" by (rule date_add_days_valid [OF vs ts])
  have "weekday s = (weekday w + (- 1)) mod 7" by (rule weekday_shift [OF ts])
  then have ws: "weekday s = 6" using w(7) by simp
  have "\<not> date_le w s" using w(3,4) by (simp add: date_le_def s_def)
  then have as: "AcademicYear s = Inr (year d - 1)"
    using w(1) by (simp add: AcademicYear_def bind_err_def s_def)
  from w(1) a aw uw add ws as show ?thesis by blast
qed

theorem AcademicYear_boundary_witness:
  "valid_date \<lparr>year = 2023, month = 1, day = 9\<rparr>
   \<and> WeekOne 2023 = Inr \<lparr>year = 2023, month = 8, day = 21\<rparr>
   \<and> AcademicYear \<lparr>year = 2023, month = 1, day = 9\<rparr> = Inr 2022
   \<and> AcademicYear \<lparr>year = 2023, month = 8, day = 21\<rparr> = Inr 2023
   \<and> UniversityWeek \<lparr>year = 2023, month = 8, day = 21\<rparr> = Inr 1
   \<and> weekday \<lparr>year = 2023, month = 8, day = 20\<rparr> = 6
   \<and> AcademicYear \<lparr>year = 2023, month = 8, day = 20\<rparr> = Inr 2022"
proof -
  let ?d = "\<lparr>year = 2023, month = 1, day = 9\<rparr>"
  have v: "valid_date ?d" by code_simp
  have W: "WeekOne 2023 = Inr \<lparr>year = 2023, month = 8, day = 21\<rparr>" by code_simp
  have S: "date_add_days \<lparr>year = 2023, month = 8, day = 21\<rparr> (- 1)
      = Inr \<lparr>year = 2023, month = 8, day = 20\<rparr>" by code_simp
  have L: "\<not> date_le \<lparr>year = 2023, month = 8, day = 21\<rparr> ?d" by (simp add: date_le_def)
  from AcademicYear_boundary [OF v] obtain w sunday where
    "WeekOne (year ?d) = Inr w"
    "AcademicYear ?d = Inr (if date_le w ?d then year ?d else year ?d - 1)"
    "AcademicYear w = Inr (year ?d)" "UniversityWeek w = Inr 1"
    "date_add_days w (- 1) = Inr sunday" "weekday sunday = 6"
    "AcademicYear sunday = Inr (year ?d - 1)"
    by blast
  with v W S L show ?thesis by simp
qed

text \<open>
  Claim C6. For every year 1..9999, \<open>WeekOne\<close> returns a Monday of August of that year,
  four days before the last Friday of that August: the Friday is a valid date of August
  with no later Friday of the same August after it.
\<close>

theorem WeekOne_last_friday:
  assumes "1 \<le> y" "y \<le> 9999"
  shows "\<exists>monday friday. WeekOne y = Inr monday \<and> date_add_days friday (- 4) = Inr monday
           \<and> valid_date friday \<and> year friday = y \<and> month friday = 8 \<and> weekday friday = 4
           \<and> (\<forall>d. valid_date d \<and> year d = y \<and> month d = 8 \<and> weekday d = 4 \<longrightarrow> date_le d friday)
           \<and> valid_date monday \<and> year monday = y \<and> month monday = 8 \<and> weekday monday = 0"
proof -
  define fd where "fd = 25 + (4 - weekday \<lparr>year = y, month = 8, day = 1\<rparr> - 31) mod 7"
  note f = WeekOne_friday [OF assms, folded fd_def]
  define friday where "friday = \<lparr>year = y, month = 8, day = fd\<rparr>"
  from WeekOne_monday [OF assms]
  obtain m where m: "WeekOne y = Inr m" "valid_date m" "year m = y" "month m = 8" "weekday m = 0"
    by blast
  have vf: "valid_date friday"
    unfolding friday_def by (rule valid_august) (use assms f(1,2) in simp_all)
  have add: "date_add_days friday (- 4) = Inr m" using f(4) m(1) by (simp add: friday_def)
  have wf: "weekday friday = 4" using f(3) by (simp add: friday_def)
  have last: "date_le d friday"
    if d: "valid_date d \<and> year d = y \<and> month d = 8 \<and> weekday d = 4" for d
  proof -
    have deq: "d = \<lparr>year = y, month = 8, day = day d\<rparr>" using d by (cases d) simp
    have d31: "day d \<le> 31"
      using d by (auto simp: valid_date_def valid_ymd_def days_in_month_def DAYS_IN_MONTH_def)
    have "day d \<le> fd"
    proof (rule ccontr)
      assume "\<not> day d \<le> fd"
      then have z: "0 < day d - fd" "day d - fd < 7" using d31 f(1) by simp_all
      let ?w = "weekday \<lparr>year = y, month = 8, day = 1\<rparr>"
      have "weekday d = (?w + (day d - 1)) mod 7"
        by (subst deq) (rule weekday_same_month)
      moreover have "weekday friday = (?w + (fd - 1)) mod 7"
        unfolding friday_def by (rule weekday_same_month)
      ultimately have "(?w + (day d - 1)) mod 7 = (?w + (fd - 1)) mod 7" using d wf by simp
      then have "7 dvd (?w + (day d - 1)) - (?w + (fd - 1))" by (simp only: mod_eq_dvd_iff)
      then have "7 dvd day d - fd" by (simp add: algebra_simps)
      then have "7 \<le> day d - fd" using z(1) by (rule zdvd_imp_le)
      with z(2) show False by simp
    qed
    then show ?thesis using d by (simp add: date_le_def friday_def)
  qed
  show ?thesis
    apply (rule exI [of _ m], rule exI [of _ friday])
    using m add vf wf last by (simp add: friday_def)
qed

theorem WeekOne_last_friday_witness:
  "(1::int) \<le> 2022 \<and> (2022::int) \<le> 9999
   \<and> WeekOne 2022 = Inr \<lparr>year = 2022, month = 8, day = 22\<rparr>
   \<and> (\<exists>monday friday. WeekOne 2022 = Inr monday \<and> date_add_days friday (- 4) = Inr monday
           \<and> valid_date friday \<and> year friday = 2022 \<and> month friday = 8 \<and> weekday friday = 4
           \<and> (\<forall>d. valid_date d \<and> year d = 2022 \<and> month d = 8 \<and> weekday d = 4 \<longrightarrow> date_le d friday)
           \<and> valid_date monday \<and> year monday = 2022 \<and> month monday = 8 \<and> weekday monday = 0)"
proof -
  have W: "WeekOne 2022 = Inr \<lparr>year = 2022, month = 8, day = 22\<rparr>" by code_simp
  have "(1::int) \<le> 2022" "(2022::int) \<le> 9999" by simp_all
  from this W WeekOne_last_friday [OF this] show ?thesis by (intro conjI)
qed

text \<open>
  Claim C1 (as amended). For every valid date \<open>d\<close> whose academic year is at least 1 (every
  date from 27 August of the year 1 on), \<open>UniversityWeek d\<close> returns and
  \<open>DateFromUniversityWeek (AcademicYear d) (UniversityWeek d) (weekday d)\<close> is \<open>d\<close>;
  this covers the dates before \<open>WeekOne\<close> of their own calendar year, which are counted
  from \<open>WeekOne\<close> of the year before. For the valid dates before 27 August of the year 1
  the academic year is 0 and \<open>UniversityWeek\<close> raises \<open>ValueError\<close>, since \<open>WeekOne 0\<close>
  asks for a date of the year 0.
\<close>

theorem week_inversion:
  assumes "valid_date d" "AcademicYear d = Inr ay" "1 \<le> ay"
  shows "\<exists>uw. UniversityWeek d = Inr uw \<and> DateFromUniversityWeek ay uw (weekday d) = Inr d"
proof -
  from UniversityWeek_char(1) [OF assms]
  obtain w where w: "WeekOne ay = Inr w" "valid_date w" "weekday w = 0"
      "toordinal w \<le> toordinal d"
      and u: "UniversityWeek d = Inr ((toordinal d - toordinal w) div 7 + 1)"
    by blast
  define n where "n = toordinal d - toordinal w"
  define x where "x = fromordinal (toordinal w + 7 * (n div 7))"
  have n0: "0 \<le> n" using w(4) by (simp add: n_def)
  have q: "0 \<le> 7 * (n div 7)" "7 * (n div 7) \<le> n"
    using n0 by (simp_all add: pos_imp_zdiv_nonneg_iff)
  note rw = toordinal_range [OF w(2)]
  note rd = toordinal_range [OF assms(1)]
  have r1: "1 \<le> toordinal w + 7 * (n div 7)" "toordinal w + 7 * (n div 7) \<le> MAXORDINAL"
    using rw rd q by (simp_all add: n_def)
  note x = fromordinal_valid [OF r1, folded x_def]
  have add1: "date_add_days w (7 * ((n div 7 + 1) - 1)) = Inr x"
    using r1 by (simp add: date_add_days_def Let_def x_def)
  have "toordinal d = toordinal w + n" by (simp add: n_def)
  then have "weekday d = (weekday w + n) mod 7" by (rule weekday_shift)
  then have wd: "weekday d = n mod 7" using w(3) by simp
  have "toordinal d = toordinal x + weekday d"
    using x(2) by (simp add: wd n_def)
  then have add2: "date_add_days x (weekday d) = Inr d"
    by (rule date_add_days_valid [OF assms(1)])
  have "DateFromUniversityWeek ay (n div 7 + 1) (weekday d) = Inr d"
    using w(1) add1 add2 by (simp add: DateFromUniversityWeek_def bind_err_def)
  with u show ?thesis by (simp add: n_def)
qed

theorem week_inversion_witness:
  "valid_date \<lparr>year = 2023, month = 1, day = 9\<rparr>
   \<and> AcademicYear \<lparr>year = 2023, month = 1, day = 9\<rparr> = Inr 2022 \<and> (1::int) \<le> 2022
   \<and> (\<exists>uw. UniversityWeek \<lparr>year = 2023, month = 1, day = 9\<rparr> = Inr uw
         \<and> DateFromUniversityWeek 2022 uw (weekday \<lparr>year = 2023, month = 1, day = 9\<rparr>)
             = Inr \<lparr>year = 2023, month = 1, day = 9\<rparr>)"
proof -
  have v: "valid_date \<lparr>year = 2023, month = 1, day = 9\<rparr>" by code_simp
  have a: "AcademicYear \<lparr>year = 2023, month = 1, day = 9\<rparr> = Inr 2022" by code_simp
  have p: "(1::int) \<le> 2022" by simp
  from v a p week_inversion [OF v a p] show ?thesis by (intro conjI)
qed

theorem week_inversion_counterexample:
  "valid_date \<lparr>year = 1, month = 1, day = 1\<rparr>
   \<and> AcademicYear \<lparr>year = 1, month = 1, day = 1\<rparr> = Inr 0
   \<and> UniversityWeek \<lparr>year = 1, month = 1, day = 1\<rparr> = Inl ValueError"
  by code_simp

text \<open>
  Claim C8. For two valid dates \<open>d1 < d2\<close> with the same academic year, the university
  week of \<open>d1\<close> is at most the university week of \<open>d2\<close>.
\<close>

theorem UniversityWeek_mono:
  assumes "valid_date d1" "valid_date d2" "date_lt d1 d2"
    and "AcademicYear d1 = AcademicYear d2"
    and "UniversityWeek d1 = Inr w1" "UniversityWeek d2 = Inr w2"
  shows "w1 \<le> w2"
proof -
  from AcademicYear_valid [OF assms(1)] obtain ay where a1: "AcademicYear d1 = Inr ay" by blast
  then have a2: "AcademicYear d2 = Inr ay" using assms(4) by simp
  have ay: "1 \<le> ay" by (rule UniversityWeek_char(3) [OF assms(1) a1 assms(5)])
  from UniversityWeek_char(1) [OF assms(1) a1 ay]
  obtain w where w: "WeekOne ay = Inr w"
      and u1: "UniversityWeek d1 = Inr ((toordinal d1 - toordinal w) div 7 + 1)"
    by blast
  from UniversityWeek_char(1) [OF assms(2) a2 ay]
  obtain w' where w': "WeekOne ay = Inr w'"
      and u2: "UniversityWeek d2 = Inr ((toordinal d2 - toordinal w') div 7 + 1)"
    by blast
  have "w' = w" using w w' by simp
  have "toordinal d1 < toordinal d2"
    using assms(1,2,3) by (simp add: date_lt_iff valid_md_ok)
  then have "(toordinal d1 - toordinal w) div 7 \<le> (toordinal d2 - toordinal w) div 7"
    by (intro zdiv_mono1) simp_all
  with u1 u2 assms(5,6) \<open>w' = w\<close> show ?thesis by simp
qed

theorem UniversityWeek_mono_witness:
  "valid_date \<lparr>year = 2022, month = 9, day = 19\<rparr> \<and> valid_date \<lparr>year = 2023, month = 1, day = 9\<rparr>
   \<and> date_lt \<lparr>year = 2022, month = 9, day = 19\<rparr> \<lparr>year = 2023, month = 1, day = 9\<rparr>
   \<and> AcademicYear \<lparr>year = 2022, month = 9, day = 19\<rparr> = AcademicYear \<lparr>year = 2023, month = 1, day = 9\<rparr>
   \<and> UniversityWeek \<lparr>year = 2022, month = 9, day = 19\<rparr> = Inr 5
   \<and> UniversityWeek \<lparr>year = 2023, month = 1, day = 9\<rparr> = Inr 21
   \<and> (5::int) \<le> 21"
proof -
  have v1: "valid_date \<lparr>year = 2022, month = 9, day = 19\<rparr>" by code_simp
  have v2: "valid_date \<lparr>year = 2023, month = 1, day = 9\<rparr>" by code_simp
  have lt: "date_lt \<lparr>year = 2022, month = 9, day = 19\<rparr> \<lparr>year = 2023, month = 1, day = 9\<rparr>"
    by code_simp
  have ay: "AcademicYear \<lparr>year = 2022, month = 9, day = 19\<rparr>
      = AcademicYear \<lparr>year = 2023, month = 1, day = 9\<rparr>" by code_simp
  have u1: "UniversityWeek \<lparr>year = 2022, month = 9, day = 19\<rparr> = Inr 5" by code_simp
  have u2: "UniversityWeek \<lparr>year = 2023, month = 1, day = 9\<rparr> = Inr 21" by code_simp
  from v1 v2 lt ay u1 u2 UniversityWeek_mono [OF v1 v2 lt ay u1 u2] show ?thesis
    by (intro conjI)
qed

section \<open>The claims about the working days\<close>

text \<open>
  Claim C3 (as amended). Whenever \<open>days_since_deadline\<close> returns, for any list of closed
  days and any deadline and today that are at most 198841 days apart, its first component
  is \<open>raw - weekends - closed - 1\<close>: \<open>raw\<close> is the exact ceiling of today minus the deadline
  in days, \<open>weekends\<close> the number of Saturdays and Sundays among the days \<open>deadline + 1\<close>,
  ..., \<open>deadline + raw\<close>, and \<open>closed\<close> the number of closed days \<open>c\<close> (taken at midnight)
  with \<open>deadline < c\<close> and \<open>c < today\<close>. The closed days are compared with today and never
  with the day walked, so a closed Saturday or Sunday inside both ranges is subtracted
  twice. Further apart, the two roundings of line 178 can turn a quotient just above a
  whole number of days into that whole number, and the result is one less.
\<close>

theorem elapsed_working_days:
  assumes "days_since_deadline_at D r today deadline = Inr (e, m, w)"
    and "\<bar>timeline today - timeline deadline\<bar> \<le> 198841 * 86400000000"
  shows "e = exact_days_elapsed today deadline
             - weekend_count deadline (exact_days_elapsed today deadline)
             - closed_count today deadline (map midnight r) - 1"
proof -
  from days_since_deadline_at_Inr [OF assms(1)] obtain e0 where
    e0: "remove_weekends deadline [1 .. ceil_days (dt_diff today deadline)]
           (ceil_days (dt_diff today deadline)) = Inr e0"
    and e: "e = remove_closed today deadline (map midnight r) e0 - 1"
    by blast
  have c: "ceil_days (dt_diff today deadline) = exact_days_elapsed today deadline"
    unfolding exact_days_elapsed_def dt_diff_timeline by (rule ceil_days_exact) (rule assms(2))
  from remove_weekends_Inr [OF e0] e show ?thesis
    by (simp add: remove_closed_eq weekend_count_def c)
qed

theorem elapsed_working_days_witness:
  "days_since_deadline_at 15 [(2023, 1, 14), (2023, 1, 16)]
      \<lparr>dt_date = \<lparr>year = 2023, month = 1, day = 19\<rparr>, dt_time = 43200000000\<rparr>
      \<lparr>dt_date = \<lparr>year = 2023, month = 1, day = 13\<rparr>, dt_time = 43200000000\<rparr>
     = Inr (1, \<lparr>dt_date = \<lparr>year = 2023, month = 2, day = 6\<rparr>, dt_time = 43200000000\<rparr>, True)
   \<and> \<bar>timeline \<lparr>dt_date = \<lparr>year = 2023, month = 1, day = 19\<rparr>, dt_time = 43200000000\<rparr>
        - timeline \<lparr>dt_date = \<lparr>year = 2023, month = 1, day = 13\<rparr>, dt_time = 43200000000\<rparr>\<bar>
       \<le> 198841 * 86400000000
   \<and> exact_days_elapsed
         \<lparr>dt_date = \<lparr>year = 2023, month = 1, day = 19\<rparr>, dt_time = 43200000000\<rparr>
         \<lparr>dt_date = \<lparr>year = 2023, month = 1, day = 13\<rparr>, dt_time = 43200000000\<rparr> = 6
   \<and> weekend_count \<lparr>dt_date = \<lparr>year = 2023, month = 1, day = 13\<rparr>, dt_time = 43200000000\<rparr> 6 = 2
   \<and> closed_count
         \<lparr>dt_date = \<lparr>year = 2023, month = 1, day = 19\<rparr>, dt_time = 43200000000\<rparr>
         \<lparr>dt_date = \<lparr>year = 2023, month = 1, day = 13\<rparr>, dt_time = 43200000000\<rparr>
         (map midnight [(2023, 1, 14), (2023, 1, 16)]) = 2
   \<and> (1::int) = 6 - 2 - 2 - 1"
proof -
  let ?today = "\<lparr>dt_date = \<lparr>year = 2023, month = 1, day = 19\<rparr>, dt_time = 43200000000\<rparr>"
  let ?dl = "\<lparr>dt_date = \<lparr>year = 2023, month = 1, day = 13\<rparr>, dt_time = 43200000000\<rparr>"
  have h: "days_since_deadline_at 15 [(2023, 1, 14), (2023, 1, 16)] ?today ?dl
     = Inr (1, \<lparr>dt_date = \<lparr>year = 2023, month = 2, day = 6\<rparr>, dt_time = 43200000000\<rparr>, True)"
    by code_simp
  have b: "\<bar>timeline ?today - timeline ?dl\<bar> \<le> 198841 * 86400000000" by code_simp
  have x: "exact_days_elapsed ?today ?dl = 6" by code_simp
  have y: "weekend_count ?dl 6 = 2" by code_simp
  have z: "closed_count ?today ?dl (map midnight [(2023, 1, 14), (2023, 1, 16)]) = 2"
    by code_simp
  from elapsed_working_days [OF h b] have "(1::int) = 6 - 2 - 2 - 1"
    by (simp only: x y z)
  with h b x y z show ?thesis by (intro conjI)
qed

theorem elapsed_working_days_counterexample:
  "days_since_deadline_at DAYS_TO_MARK READABLE_CLOSED_DAYS
      \<lparr>dt_date = \<lparr>year = 2023, month = 1, day = 10\<rparr>, dt_time = 1\<rparr>
      \<lparr>dt_date = \<lparr>year = 3000, month = 1, day = 1\<rparr>, dt_time = 0\<rparr>
     = Inr (- 356834, \<lparr>dt_date = \<lparr>year = 3000, month = 1, day = 22\<rparr>, dt_time = 0\<rparr>, True)
   \<and> exact_days_elapsed
         \<lparr>dt_date = \<lparr>year = 2023, month = 1, day = 10\<rparr>, dt_time = 1\<rparr>
         \<lparr>dt_date = \<lparr>year = 3000, month = 1, day = 1\<rparr>, dt_time = 0\<rparr>
       - weekend_count \<lparr>dt_date = \<lparr>year = 3000, month = 1, day = 1\<rparr>, dt_time = 0\<rparr>
           (exact_days_elapsed
              \<lparr>dt_date = \<lparr>year = 2023, month = 1, day = 10\<rparr>, dt_time = 1\<rparr>
              \<lparr>dt_date = \<lparr>year = 3000, month = 1, day = 1\<rparr>, dt_time = 0\<rparr>)
       - closed_count
           \<lparr>dt_date = \<lparr>year = 2023, month = 1, day = 10\<rparr>, dt_time = 1\<rparr>
           \<lparr>dt_date = \<lparr>year = 3000, month = 1, day = 1\<rparr>, dt_time = 0\<rparr>
           (map midnight READABLE_CLOSED_DAYS) - 1
     = - 356833"
  by code_simp

text \<open>
  Claim C10. Whenever \<open>days_since_deadline\<close> (with its \<open>DAYS_TO_MARK\<close> of 15 and any list of
  closed days) returns, the marking deadline it returns is a working day: its weekday is
  Monday to Friday and its date is not a closed date.
\<close>

theorem marking_deadline_is_working_day:
  assumes "days_since_deadline_at DAYS_TO_MARK r today deadline = Inr (e, m, w)"
  shows "weekday (dt_date m) < 5 \<and> dt_date m \<notin> set (closed_dates_of r)"
proof -
  from days_since_deadline_at_Inr [OF assms] obtain n where
    n: "scan_working_days DAYS_TO_MARK (closed_dates_of r) deadline 0 1 = Inr n"
    and m: "dt_add_days deadline (n - 1) = Inr m"
    by blast
  have "0 < DAYS_TO_MARK" by (simp add: DAYS_TO_MARK_def)
  from scan_Inr [OF n this] have "working_day (closed_dates_of r) (day_after deadline (n - 1))"
    by simp
  with dt_add_days_date [OF m] show ?thesis by (simp add: working_day_def)
qed

theorem marking_deadline_is_working_day_witness:
  "days_since_deadline_at DAYS_TO_MARK READABLE_CLOSED_DAYS
      \<lparr>dt_date = \<lparr>year = 2023, month = 1, day = 20\<rparr>, dt_time = 36000000000\<rparr>
      \<lparr>dt_date = \<lparr>year = 2022, month = 12, day = 16\<rparr>, dt_time = 43200000000\<rparr>
     = Inr (13, \<lparr>dt_date = \<lparr>year = 2023, month = 1, day = 23\<rparr>, dt_time = 43200000000\<rparr>, True)
   \<and> weekday (dt_date \<lparr>dt_date = \<lparr>year = 2023, month = 1, day = 23\<rparr>, dt_time = 43200000000\<rparr>) < 5
   \<and> dt_date \<lparr>dt_date = \<lparr>year = 2023, month = 1, day = 23\<rparr>, dt_time = 43200000000\<rparr>
        \<notin> set (closed_dates_of READABLE_CLOSED_DAYS)"
proof -
  have h: "days_since_deadline_at DAYS_TO_MARK READABLE_CLOSED_DAYS
      \<lparr>dt_date = \<lparr>year = 2023, month = 1, day = 20\<rparr>, dt_time = 36000000000\<rparr>
      \<lparr>dt_date = \<lparr>year = 2022, month = 12, day = 16\<rparr>, dt_time = 43200000000\<rparr>
     = Inr (13, \<lparr>dt_date = \<lparr>year = 2023, month = 1, day = 23\<rparr>, dt_time = 43200000000\<rparr>, True)"
    by code_simp
  from h marking_deadline_is_working_day [OF h] show ?thesis by (intro conjI) simp_all
qed

text \<open>
  Claim C4. With \<open>DAYS_TO_MARK = 15\<close> and no closed date among the 21 days after the
  deadline, \<open>days_since_deadline\<close> returns as marking deadline the deadline moved forward
  to the fifteenth weekday counted from the day after the deadline (Saturdays and Sundays
  skipped): that day is a weekday, and exactly 15 weekdays lie between the day after the
  deadline and it. It is \<open>marking_offset\<close> days after the deadline, which is 21 days when
  the deadline is a Monday (or any other weekday). The hypotheses say that the inputs
  are well formed (closed days that are dates, \<open>today\<close> and the deadline datetimes) and
  that the dates the function computes exist: \<open>today\<close> is before 31 December 9999 and the
  deadline at least 21 days before it.
\<close>

theorem marking_deadline_fifteen_weekdays:
  assumes "list_all (\<lambda>(y, m, d). valid_ymd y m d) r"
    and "valid_datetime today" "valid_datetime deadline"
    and "toordinal (dt_date today) < MAXORDINAL"
    and "toordinal (dt_date deadline) + 21 \<le> MAXORDINAL"
    and "\<forall>i\<in>{1..21}. day_after deadline i \<notin> set (closed_dates_of r)"
  shows "(\<exists>e w. days_since_deadline_at DAYS_TO_MARK r today deadline =
            Inr (e, deadline\<lparr>dt_date :=
                      day_after deadline (marking_offset (weekday (dt_date deadline)))\<rparr>, w))
         \<and> weekday (day_after deadline (marking_offset (weekday (dt_date deadline)))) < 5
         \<and> int (length (filter (\<lambda>i. weekday (day_after deadline i) < 5)
                  [1 .. marking_offset (weekday (dt_date deadline))])) = 15"
proof -
  define wd where "wd = weekday (dt_date deadline)"
  define k where "k = marking_offset wd"
  define cl where "cl = closed_dates_of r"
  have "wd \<in> {0..6}" using weekday_range [of "dt_date deadline"] by (simp add: wd_def)
  from bspec [OF fifteen_weekdays this]
  have cnt: "int (length (filter (\<lambda>i. (wd + i) mod 7 < 5) [1 .. k])) = 15"
    and last: "(wd + k) mod 7 < 5" and k: "19 \<le> k" "k \<le> 21"
    by (simp_all add: k_def)
  have o: "1 \<le> toordinal (dt_date deadline)"
    using assms(3) by (simp add: valid_datetime_def toordinal_range)
  have wk: "weekday (day_after deadline i) = (wd + i) mod 7" if "1 \<le> i" "i \<le> k" for i
    unfolding wd_def by (rule weekday_day_after) (use that o k assms(5) in simp_all)
  have nc: "day_after deadline i \<notin> set cl" if "1 \<le> i" "i \<le> k" for i
    using assms(6) that k by (simp add: cl_def)
  have f1: "filter (\<lambda>i. weekday (day_after deadline i) < 5) [1 .. k]
      = filter (\<lambda>i. (wd + i) mod 7 < 5) [1 .. k]"
    by (rule filter_cong) (simp_all add: wk)
  have f2: "filter (\<lambda>i. working_day cl (day_after deadline i)) [1 .. k]
      = filter (\<lambda>i. (wd + i) mod 7 < 5) [1 .. k]"
    by (rule filter_cong) (simp_all add: working_day_def wk nc)
  have wc: "working_count cl deadline 1 k = 15" by (simp add: working_count_def f2 cnt)
  have wl: "working_day cl (day_after deadline k)"
    using wk [of k] nc [of k] last k by (simp add: working_day_def)
  have s: "scan_working_days DAYS_TO_MARK cl deadline 0 1 = Inr (k + 1)"
    by (rule scan_complete) (use k o assms(5) wl wc in \<open>simp_all add: DAYS_TO_MARK_def\<close>)
  have a: "dt_add_days deadline k = Inr (deadline\<lparr>dt_date := day_after deadline k\<rparr>)"
    by (rule dt_add_days_ok) (use k o assms(5) in simp_all)
  from first_pass_ok [OF assms(2,3,4)] obtain e0 where
    e0: "remove_weekends deadline [1 .. ceil_days (dt_diff today deadline)]
           (ceil_days (dt_diff today deadline)) = Inr e0"
    by blast
  have "\<exists>e w. days_since_deadline_at DAYS_TO_MARK r today deadline =
            Inr (e, deadline\<lparr>dt_date := day_after deadline k\<rparr>, w)"
    by (simp add: days_since_deadline_at_unfold [OF assms(1) e0] bind_err_def
          s [unfolded cl_def] a)
  moreover have "weekday (day_after deadline k) < 5" using wk [of k] last k by simp
  moreover have "int (length (filter (\<lambda>i. weekday (day_after deadline i) < 5) [1 .. k])) = 15"
    by (simp add: f1 cnt)
  ultimately show ?thesis unfolding k_def wd_def by (intro conjI)
qed

theorem marking_deadline_fifteen_weekdays_witness:
  "list_all (\<lambda>(y, m, d). valid_ymd y m d) READABLE_CLOSED_DAYS
   \<and> valid_datetime \<lparr>dt_date = \<lparr>year = 2023, month = 1, day = 20\<rparr>, dt_time = 36000000000\<rparr>
   \<and> valid_datetime \<lparr>dt_date = \<lparr>year = 2023, month = 1, day = 9\<rparr>, dt_time = 43200000000\<rparr>
   \<and> toordinal (dt_date \<lparr>dt_date = \<lparr>year = 2023, month = 1, day = 20\<rparr>, dt_time = 36000000000\<rparr>)
        < MAXORDINAL
   \<and> toordinal (dt_date \<lparr>dt_date = \<lparr>year = 2023, month = 1, day = 9\<rparr>, dt_time = 43200000000\<rparr>)
        + 21 \<le> MAXORDINAL
   \<and> list_all (\<lambda>i. day_after \<lparr>dt_date = \<lparr>year = 2023, month = 1, day = 9\<rparr>, dt_time = 43200000000\<rparr> i
          \<notin> set (closed_dates_of READABLE_CLOSED_DAYS)) [1 .. 21]
   \<and> weekday (dt_date \<lparr>dt_date = \<lparr>year = 2023, month = 1, day = 9\<rparr>, dt_time = 43200000000\<rparr>) = 0
   \<and> marking_offset 0 = 21
   \<and> day_after \<lparr>dt_date = \<lparr>year = 2023, month = 1, day = 9\<rparr>, dt_time = 43200000000\<rparr> 21
        = \<lparr>year = 2023, month = 1, day = 30\<rparr>
   \<and> (\<exists>e w. days_since_deadline_at DAYS_TO_MARK READABLE_CLOSED_DAYS
          \<lparr>dt_date = \<lparr>year = 2023, month = 1, day = 20\<rparr>, dt_time = 36000000000\<rparr>
          \<lparr>dt_date = \<lparr>year = 2023, month = 1, day = 9\<rparr>, dt_time = 43200000000\<rparr>
        = Inr (e, \<lparr>dt_date = \<lparr>year = 2023, month = 1, day = 30\<rparr>, dt_time = 43200000000\<rparr>, w))"
proof -
  let ?dl = "\<lparr>dt_date = \<lparr>year = 2023, month = 1, day = 9\<rparr>, dt_time = 43200000000\<rparr>"
  let ?today = "\<lparr>dt_date = \<lparr>year = 2023, month = 1, day = 20\<rparr>, dt_time = 36000000000\<rparr>"
  have b: "list_all (\<lambda>(y, m, d). valid_ymd y m d) READABLE_CLOSED_DAYS" by code_simp
  have c: "valid_datetime ?today" by code_simp
  have d: "valid_datetime ?dl" by code_simp
  have e: "toordinal (dt_date ?today) < MAXORDINAL" by code_simp
  have f: "toordinal (dt_date ?dl) + 21 \<le> MAXORDINAL" by code_simp
  have g: "\<forall>i\<in>{1..21}. day_after ?dl i \<notin> set (closed_dates_of READABLE_CLOSED_DAYS)"
    by code_simp
  have w: "weekday (dt_date ?dl) = 0" by code_simp
  have m: "marking_offset 0 = 21" by code_simp
  have a: "day_after ?dl 21 = \<lparr>year = 2023, month = 1, day = 30\<rparr>" by code_simp
  from marking_deadline_fifteen_weekdays [OF b c d e f g]
  have "\<exists>e w. days_since_deadline_at DAYS_TO_MARK READABLE_CLOSED_DAYS ?today ?dl =
            Inr (e, ?dl\<lparr>dt_date := day_after ?dl (marking_offset (weekday (dt_date ?dl)))\<rparr>, w)"
    by (rule conjunct1)
  then have "\<exists>e w. days_since_deadline_at DAYS_TO_MARK READABLE_CLOSED_DAYS ?today ?dl =
            Inr (e, \<lparr>dt_date = \<lparr>year = 2023, month = 1, day = 30\<rparr>, dt_time = 43200000000\<rparr>, w)"
    unfolding w m a by simp
  moreover have "list_all (\<lambda>i. day_after ?dl i \<notin> set (closed_dates_of READABLE_CLOSED_DAYS))
      [1 .. 21]"
    using g by (simp add: list_all_iff)
  ultimately show ?thesis using b c d e f w m a by (intro conjI)
qed

text \<open>
  Claim C5. If the 1000 days after the deadline hold fewer working days than the scan has
  to count (as when every one of them is closed), \<open>days_since_deadline\<close> ends with
  \<open>sys.exit\<close>, the fatal error. The hypotheses say that the inputs are well formed and
  that those 1000 days exist in the calendar (otherwise the date arithmetic raises
  \<open>OverflowError\<close> first). The scan itself, \<open>scan_working_days\<close>, is a total function: its
  termination is proved with the measure \<open>1001 - days_from_deadline\<close>, so the loop ends
  on every input.
\<close>

theorem scan_bound_is_fatal:
  assumes "list_all (\<lambda>(y, m, d). valid_ymd y m d) r"
    and "valid_datetime today" "valid_datetime deadline"
    and "toordinal (dt_date today) < MAXORDINAL"
    and "toordinal (dt_date deadline) + 1000 \<le> MAXORDINAL"
    and "working_count (closed_dates_of r) deadline 1 1000 < D"
  shows "days_since_deadline_at D r today deadline = Inl SystemExit"
proof -
  from first_pass_ok [OF assms(2,3,4)] obtain e0 where
    e0: "remove_weekends deadline [1 .. ceil_days (dt_diff today deadline)]
           (ceil_days (dt_diff today deadline)) = Inr e0"
    by blast
  have "1 \<le> toordinal (dt_date deadline)"
    using assms(3) by (simp add: valid_datetime_def toordinal_range)
  then have "scan_working_days D (closed_dates_of r) deadline 0 1 = Inl SystemExit"
    by (intro scan_exit) (use assms(5,6) in simp_all)
  then show ?thesis
    by (simp add: days_since_deadline_at_unfold [OF assms(1) e0] bind_err_def)
qed

theorem scan_bound_is_fatal_witness:
  "list_all (\<lambda>(y, m, d). valid_ymd y m d)
       (all_closed \<lparr>dt_date = \<lparr>year = 2023, month = 1, day = 9\<rparr>, dt_time = 43200000000\<rparr>)
   \<and> valid_datetime \<lparr>dt_date = \<lparr>year = 2023, month = 1, day = 20\<rparr>, dt_time = 36000000000\<rparr>
   \<and> valid_datetime \<lparr>dt_date = \<lparr>year = 2023, month = 1, day = 9\<rparr>, dt_time = 43200000000\<rparr>
   \<and> toordinal (dt_date \<lparr>dt_date = \<lparr>year = 2023, month = 1, day = 20\<rparr>, dt_time = 36000000000\<rparr>)
        < MAXORDINAL
   \<and> toordinal (dt_date \<lparr>dt_date = \<lparr>year = 2023, month = 1, day = 9\<rparr>, dt_time = 43200000000\<rparr>)
        + 1000 \<le> MAXORDINAL
   \<and> working_count
        (closed_dates_of (all_closed \<lparr>dt_date = \<lparr>year = 2023, month = 1, day = 9\<rparr>, dt_time = 43200000000\<rparr>))
        \<lparr>dt_date = \<lparr>year = 2023, month = 1, day = 9\<rparr>, dt_time = 43200000000\<rparr> 1 1000 < DAYS_TO_MARK
   \<and> days_since_deadline_at DAYS_TO_MARK
        (all_closed \<lparr>dt_date = \<lparr>year = 2023, month = 1, day = 9\<rparr>, dt_time = 43200000000\<rparr>)
        \<lparr>dt_date = \<lparr>year = 2023, month = 1, day = 20\<rparr>, dt_time = 36000000000\<rparr>
        \<lparr>dt_date = \<lparr>year = 2023, month = 1, day = 9\<rparr>, dt_time = 43200000000\<rparr>
       = Inl SystemExit"
proof -
  let ?dl = "\<lparr>dt_date = \<lparr>year = 2023, month = 1, day = 9\<rparr>, dt_time = 43200000000\<rparr>"
  let ?today = "\<lparr>dt_date = \<lparr>year = 2023, month = 1, day = 20\<rparr>, dt_time = 36000000000\<rparr>"
  have c: "valid_datetime ?today" by code_simp
  have d: "valid_datetime ?dl" by code_simp
  have e: "toordinal (dt_date ?today) < MAXORDINAL" by code_simp
  have f: "toordinal (dt_date ?dl) + 1000 \<le> MAXORDINAL" by code_simp
  note b = all_closed_blocks [OF d f]
  have g: "working_count (closed_dates_of (all_closed ?dl)) ?dl 1 1000 < DAYS_TO_MARK"
    by (simp add: b(2) DAYS_TO_MARK_def)
  from b(1) c d e f g scan_bound_is_fatal [OF b(1) c d e f g] show ?thesis
    by (intro conjI)
qed

end
